theory Spec2Isabelle
  imports Complex_Main "HOL-Library.Word"
begin

section \<open>Buffers\<close>

text \<open>
  An \<open>ImageData\<close> of the canvas API: its dimensions and an RGBA byte buffer
  (\<open>Uint8ClampedArray\<close>), four bytes per pixel, row by row. The platform only ever
  hands out values with positive dimensions and \<open>length data = 4 * width * height\<close>;
  \<open>wf_image\<close> states this invariant where a theorem needs it.
\<close>

type_synonym byte = "8 word"

record ImageData =
  width :: nat
  height :: nat
  data :: "byte list"

definition wf_image :: "ImageData \<Rightarrow> bool" where
  "wf_image img = (0 < width img \<and> 0 < height img \<and> length (data img) = 4 * width img * height img)"

text \<open>\<open>new ImageData(w, h)\<close>: a zero-filled (transparent black) buffer.\<close>

definition new_ImageData :: "nat \<Rightarrow> nat \<Rightarrow> ImageData" where
  "new_ImageData w h = \<lparr>width = w, height = h, data = replicate (w * h * 4) 0\<rparr>"

text \<open>
  Reading a typed array out of range gives \<open>undefined\<close> (here \<open>None\<close>), and every
  comparison with \<open>undefined\<close> is false; writing out of range is ignored.
\<close>

definition rd :: "'a list \<Rightarrow> nat \<Rightarrow> 'a option" where
  "rd xs i = (if i < length xs then Some (xs ! i) else None)"

definition wr :: "'a list \<Rightarrow> nat \<Rightarrow> 'a \<Rightarrow> 'a list" where
  "wr xs i v = (if i < length xs then xs[i := v] else xs)"

definition lt_js :: "byte option \<Rightarrow> byte \<Rightarrow> bool" where
  "lt_js a n = (case a of None \<Rightarrow> False | Some v \<Rightarrow> v < n)"

definition gt_js :: "byte option \<Rightarrow> byte \<Rightarrow> bool" where
  "gt_js a n = (case a of None \<Rightarrow> False | Some v \<Rightarrow> n < v)"

section \<open>analyzeThermalIssues\<close>

definition isBlack :: "byte list \<Rightarrow> nat \<Rightarrow> bool" where
  "isBlack d idx = (lt_js (rd d idx) 50 \<and> gt_js (rd d (idx + 3)) 200)"

text \<open>
  The 3x3 neighbour count of the source. It is computed for every black pixel and never
  read afterwards. The loops call it with \<open>1 \<le> y\<close> and \<open>1 \<le> x\<close> only, so the
  neighbour index is never negative.
\<close>

definition density :: "byte list \<Rightarrow> nat \<Rightarrow> nat \<Rightarrow> nat \<Rightarrow> nat" where
  "density d w y x =
     fold (\<lambda>dy. fold (\<lambda>dx n.
         if isBlack d (nat ((int y + dy) * int w + (int x + dx)) * 4) then n + 1 else n)
       [-1, 0, 1]) [-1, 0, 1] 0"

text \<open>The body of the inner loop, for the pixel at column \<open>x\<close> of row \<open>y\<close>.\<close>

definition flag_pixel :: "byte list \<Rightarrow> nat \<Rightarrow> nat \<Rightarrow> nat \<Rightarrow> byte list \<Rightarrow> byte list" where
  "flag_pixel d w y x outData =
     (let idx = (y * w + x) * 4 in
      if isBlack d idx then
        (let dens = density d w y x;
             r = rd d idx
         in if gt_js r 100 \<and> lt_js r 200 \<and> gt_js (rd d (idx + 3)) 200
            then wr (wr (wr (wr outData idx 255) (idx + 1) 63) (idx + 2) 88) (idx + 3) 200
            else outData)
      else outData)"

text \<open>
  The loops run \<open>y\<close> over \<open>1 .. height - 2\<close> and \<open>x\<close> over \<open>1 .. width - 2\<close>; with a
  dimension below 2 both the source's range and \<open>[1..<n - 1]\<close> are empty. The first
  argument, the original image, is never read by the source.
\<close>

definition analyzeThermalIssues :: "ImageData \<Rightarrow> ImageData \<Rightarrow> ImageData" where
  "analyzeThermalIssues originalData processedData =
     (let w = width processedData;
          h = height processedData;
          output = new_ImageData w h;
          d = data processedData;
          outData = fold (\<lambda>y. fold (\<lambda>x. flag_pixel d w y x) [1..<w - 1]) [1..<h - 1] (data output)
      in output\<lparr>data := outData\<rparr>)"

section \<open>Settings\<close>

text \<open>
  The fields of \<open>StencilSettings\<close> that \<open>processStencil\<close> reads. JavaScript numbers
  are modelled as real numbers: every finite float is a real and comparisons between
  floats are exact, but the rounding of each arithmetic operation (and of a store into a
  \<open>Float32Array\<close>), infinities and NaN are not represented. In particular
  \<open>contrast = 259\<close> divides by zero in the source.
\<close>

datatype Mode = Edge | Threshold | Mixed

record StencilSettings =
  contrast :: real
  brightness :: real
  edgeIntensity :: real
  thickness :: real
  detail :: real
  smoothing :: real
  mode :: Mode
  invert :: bool
  flipX :: bool
  lineColor :: string
  showThermalWarnings :: bool

record RGB =
  red :: nat
  green :: nat
  blue :: nat

text \<open>
  \<open>hexToRgb\<close>: an optional \<open>#\<close>, then exactly six hexadecimal digits of either case,
  and nothing else; any other string gives black.
\<close>

definition hexVal :: "char \<Rightarrow> nat option" where
  "hexVal ch =
     (let n = (of_char ch :: nat) in
      if 48 \<le> n \<and> n \<le> 57 then Some (n - 48)
      else if 97 \<le> n \<and> n \<le> 102 then Some (n - 87)
      else if 65 \<le> n \<and> n \<le> 70 then Some (n - 55)
      else None)"

definition parseInt16 :: "char \<Rightarrow> char \<Rightarrow> nat" where
  "parseInt16 hi lo = 16 * the (hexVal hi) + the (hexVal lo)"

definition hexToRgb :: "string \<Rightarrow> RGB" where
  "hexToRgb hex =
     (let body = (case hex of [] \<Rightarrow> [] | ch # rest \<Rightarrow> if ch = CHR ''#'' then rest else hex) in
      if length body = 6 \<and> list_all (\<lambda>ch. hexVal ch \<noteq> None) body
      then \<lparr>red = parseInt16 (body ! 0) (body ! 1),
            green = parseInt16 (body ! 2) (body ! 3),
            blue = parseInt16 (body ! 4) (body ! 5)\<rparr>
      else \<lparr>red = 0, green = 0, blue = 0\<rparr>)"

section \<open>processStencil\<close>

subsection \<open>Pass 1: contrast, brightness, luminance\<close>

definition contrastFactor :: "StencilSettings \<Rightarrow> real" where
  "contrastFactor s = (259 * (contrast s + 255)) / (255 * (259 - contrast s))"

definition getLum :: "real \<Rightarrow> real \<Rightarrow> real \<Rightarrow> real" where
  "getLum r g b = 0.299 * r + 0.587 * g + 0.114 * b"

definition adjust :: "StencilSettings \<Rightarrow> real \<Rightarrow> real" where
  "adjust s ch = max 0 (min 255 (contrastFactor s * (ch - 128) + 128 + brightness s))"

text \<open>
  The loop walks the byte buffer four bytes at a time and stores one luminance per pixel.
  The buffer of an \<open>ImageData\<close> holds whole pixels, so the second equation only ever
  sees the empty list.
\<close>

fun grayscale :: "StencilSettings \<Rightarrow> byte list \<Rightarrow> real list" where
  "grayscale s (r # g # b # a # rest) =
     getLum (adjust s (real (unat r))) (adjust s (real (unat g))) (adjust s (real (unat b)))
       # grayscale s rest"
| "grayscale s _ = []"

subsection \<open>Pass 2: box blur\<close>

text \<open>\<open>acc\<close> is the source's \<open>sum\<close>.\<close>

definition box_mean :: "nat \<Rightarrow> nat \<Rightarrow> real list \<Rightarrow> int \<Rightarrow> nat \<Rightarrow> nat \<Rightarrow> real" where
  "box_mean w h grayBuffer blurRadius y x =
     (case fold (\<lambda>by. fold (\<lambda>bx (acc, count).
               let ny = int y + by; nx = int x + bx in
               if 0 \<le> ny \<and> ny < int h \<and> 0 \<le> nx \<and> nx < int w
               then (acc + grayBuffer ! nat (ny * int w + nx), count + 1)
               else (acc, count))
             [- blurRadius..blurRadius]) [- blurRadius..blurRadius] (0, 0 :: nat)
      of (acc, count) \<Rightarrow> acc / real count)"

text \<open>
  A fresh array filled row by row, one value per pixel, is the concatenation of its rows.
\<close>

definition rows_of :: "nat \<Rightarrow> nat \<Rightarrow> (nat \<Rightarrow> nat \<Rightarrow> 'a) \<Rightarrow> 'a list" where
  "rows_of w h f = concat (map (\<lambda>y. map (\<lambda>x. f y x) [0..<w]) [0..<h])"

definition smooth :: "StencilSettings \<Rightarrow> nat \<Rightarrow> nat \<Rightarrow> real list \<Rightarrow> real list" where
  "smooth s w h grayBuffer =
     (if smoothing s > 0
      then (let blurRadius = \<lfloor>smoothing s\<rfloor> in rows_of w h (box_mean w h grayBuffer blurRadius))
      else grayBuffer)"

subsection \<open>Pass 3: Sobel magnitude and dilation\<close>

definition sobel :: "StencilSettings \<Rightarrow> nat \<Rightarrow> real list \<Rightarrow> nat \<Rightarrow> nat \<Rightarrow> real" where
  "sobel s w grayBuffer y x =
     (let gx = - 1 * grayBuffer ! ((y - 1) * w + (x - 1))
             + 1 * grayBuffer ! ((y - 1) * w + (x + 1))
             + - 2 * grayBuffer ! (y * w + (x - 1))
             + 2 * grayBuffer ! (y * w + (x + 1))
             + - 1 * grayBuffer ! ((y + 1) * w + (x - 1))
             + 1 * grayBuffer ! ((y + 1) * w + (x + 1));
          gy = - 1 * grayBuffer ! ((y - 1) * w + (x - 1))
             + - 2 * grayBuffer ! ((y - 1) * w + x)
             + - 1 * grayBuffer ! ((y - 1) * w + (x + 1))
             + 1 * grayBuffer ! ((y + 1) * w + (x - 1))
             + 2 * grayBuffer ! ((y + 1) * w + x)
             + 1 * grayBuffer ! ((y + 1) * w + (x + 1));
          magnitude = sqrt (gx * gx + gy * gy)
      in magnitude * (edgeIntensity s / 20))"

text \<open>
  \<open>outputGray\<close> starts as zeros and the loops write the interior pixels only, so the
  border ring keeps the value 0.
\<close>

definition edgeMagnitude :: "StencilSettings \<Rightarrow> nat \<Rightarrow> nat \<Rightarrow> real list \<Rightarrow> real list" where
  "edgeMagnitude s w h grayBuffer =
     rows_of w h (\<lambda>y x. if 1 \<le> y \<and> y < h - 1 \<and> 1 \<le> x \<and> x < w - 1
                         then sobel s w grayBuffer y x else 0)"

definition dilate_at :: "nat \<Rightarrow> nat \<Rightarrow> real list \<Rightarrow> int \<Rightarrow> nat \<Rightarrow> nat \<Rightarrow> real" where
  "dilate_at w h outputGray radius y x =
     fold (\<lambda>dy. fold (\<lambda>dx maxVal.
              let ny = int y + dy; nx = int x + dx in
              if 0 \<le> ny \<and> ny < int h \<and> 0 \<le> nx \<and> nx < int w
              then max maxVal (outputGray ! nat (ny * int w + nx))
              else maxVal)
            [- radius..radius]) [- radius..radius] 0"

definition dilate :: "StencilSettings \<Rightarrow> nat \<Rightarrow> nat \<Rightarrow> real list \<Rightarrow> real list" where
  "dilate s w h outputGray =
     (if thickness s > 1
      then (let radius = \<lfloor>thickness s / 2\<rfloor> in rows_of w h (dilate_at w h outputGray radius))
      else outputGray)"

subsection \<open>Pass 3: line decision\<close>

text \<open>
  The decision of the edge and mixed branch for one pixel, before the invert step:
  \<open>val\<close> is the dilated magnitude and \<open>gray\<close> the smoothed luminance of the pixel.
\<close>

definition edgeIsLine :: "StencilSettings \<Rightarrow> real \<Rightarrow> real \<Rightarrow> bool" where
  "edgeIsLine s val gray =
     (let threshold = detail s * 2.55;
          isLine = val > threshold
      in if mode s = Mixed
         then (let originalVal = (if gray > 128 then False else True) in isLine \<or> originalVal)
         else isLine)"

text \<open>The decision of the threshold branch for one pixel, before the invert step.\<close>

definition thresholdIsLine :: "StencilSettings \<Rightarrow> real \<Rightarrow> bool" where
  "thresholdIsLine s val = (let threshold = detail s * 2.55 in val < threshold)"

definition invertStep :: "StencilSettings \<Rightarrow> bool \<Rightarrow> bool" where
  "invertStep s isLine = (if invert s then \<not> isLine else isLine)"

definition paint :: "RGB \<Rightarrow> bool \<Rightarrow> byte list" where
  "paint lineRGB isLine =
     (if isLine then [of_nat (red lineRGB), of_nat (green lineRGB), of_nat (blue lineRGB), 255]
      else [255, 255, 255, 255])"

text \<open>The gray buffer after pass 2 and the dilated magnitude map of an image.\<close>

definition grayBufferOf :: "StencilSettings \<Rightarrow> ImageData \<Rightarrow> real list" where
  "grayBufferOf s imageData =
     smooth s (width imageData) (height imageData) (grayscale s (data imageData))"

definition dilatedGrayOf :: "StencilSettings \<Rightarrow> ImageData \<Rightarrow> real list" where
  "dilatedGrayOf s imageData =
     (let w = width imageData; h = height imageData
      in dilate s w h (edgeMagnitude s w h (grayBufferOf s imageData)))"

text \<open>
  The value of \<open>isLine\<close> for every pixel index \<open>i\<close>, first as the mode decides it and
  then after the invert step, which is the value that selects the pixel's colour.
\<close>

definition lineBeforeInvert :: "StencilSettings \<Rightarrow> ImageData \<Rightarrow> bool list" where
  "lineBeforeInvert s imageData =
     (let n = width imageData * height imageData;
          grayBuffer = grayBufferOf s imageData
      in case mode s of
           Threshold \<Rightarrow> map (\<lambda>i. thresholdIsLine s (grayBuffer ! i)) [0..<n]
         | _ \<Rightarrow> (let dilatedGray = dilatedGrayOf s imageData
                 in map (\<lambda>i. edgeIsLine s (dilatedGray ! i) (grayBuffer ! i)) [0..<n]))"

definition lineClassification :: "StencilSettings \<Rightarrow> ImageData \<Rightarrow> bool list" where
  "lineClassification s imageData = map (invertStep s) (lineBeforeInvert s imageData)"

definition lineCount :: "StencilSettings \<Rightarrow> ImageData \<Rightarrow> nat" where
  "lineCount s imageData = length (filter (\<lambda>isLine. isLine) (lineClassification s imageData))"

definition finalBufferOf :: "StencilSettings \<Rightarrow> ImageData \<Rightarrow> byte list" where
  "finalBufferOf s imageData =
     (let lineRGB = hexToRgb (lineColor s)
      in concat (map (paint lineRGB) (lineClassification s imageData)))"

subsection \<open>Render loop with the read-side flip\<close>

text \<open>A byte read for storing: \<open>undefined\<close> stored into a clamped byte array is 0.\<close>

definition rd0 :: "byte list \<Rightarrow> nat \<Rightarrow> byte" where
  "rd0 xs i = (case rd xs i of None \<Rightarrow> 0 | Some v \<Rightarrow> v)"

definition render_pixel :: "bool \<Rightarrow> nat \<Rightarrow> byte list \<Rightarrow> nat \<Rightarrow> nat \<Rightarrow> byte list \<Rightarrow> byte list" where
  "render_pixel flip w finalBuffer y x renderData =
     (let readX = (if flip then w - 1 - x else x);
          readIdx = (y * w + readX) * 4;
          writeIdx = (y * w + x) * 4
      in wr (wr (wr (wr renderData writeIdx (rd0 finalBuffer readIdx))
                   (writeIdx + 1) (rd0 finalBuffer (readIdx + 1)))
               (writeIdx + 2) (rd0 finalBuffer (readIdx + 2)))
           (writeIdx + 3) (rd0 finalBuffer (readIdx + 3)))"

definition render :: "bool \<Rightarrow> nat \<Rightarrow> nat \<Rightarrow> byte list \<Rightarrow> byte list \<Rightarrow> byte list" where
  "render flip w h finalBuffer renderData =
     fold (\<lambda>y. fold (\<lambda>x. render_pixel flip w finalBuffer y x) [0..<w]) [0..<h] renderData"

subsection \<open>The whole function\<close>

record StencilResult =
  processed :: ImageData
  thermalWarnings :: "ImageData option"

definition processStencil :: "ImageData \<Rightarrow> StencilSettings \<Rightarrow> StencilResult" where
  "processStencil imageData s =
     (let w = width imageData;
          h = height imageData;
          output = \<lparr>width = w, height = h, data = data imageData\<rparr>;
          finalBuffer = finalBufferOf s imageData;
          output = output\<lparr>data := render (flipX s) w h finalBuffer (data output)\<rparr>;
          warnings = (if showThermalWarnings s
                      then Some (analyzeThermalIssues imageData output) else None)
      in \<lparr>processed = output, thermalWarnings = warnings\<rparr>)"

section \<open>Bounds of the Settings, as documented\<close>



section \<open>The threshold in IEEE 754 arithmetic\<close>

text \<open>
  \<open>const threshold = settings.detail * 2.55\<close> is a product of binary64 numbers: the
  literal \<open>2.55\<close> stands for the binary64 number nearest to it, and the product is the
  binary64 number nearest to the exact product. \<open>thresholdIsLine\<close> and \<open>edgeIsLine\<close>
  above compare with the exact product \<open>detail s * 2.55\<close>, which is less than one unit
  in the last place away; \<open>threshold_binary64\<close> is the value that the source holds.

  \<open>binary64 x\<close> is the binary64 number nearest to the real \<open>x\<close>, a tie going to the even
  significand: 53 significant bits, the exponent not below that of the subnormal
  numbers. Results of magnitude \<open>2 ^ 1024\<close> and more, which become infinities, are not
  represented.
\<close>

definition roundTiesToEven :: "real \<Rightarrow> int" where
  "roundTiesToEven q =
     (let n = \<lfloor>q\<rfloor>; f = q - of_int n
      in if f < 1 / 2 then n else if 1 / 2 < f then n + 1 else if even n then n else n + 1)"

definition binary64 :: "real \<Rightarrow> real" where
  "binary64 x =
     (if x = 0 then 0
      else (let e = max \<lfloor>log 2 \<bar>x\<bar>\<rfloor> (- 1022);
                ulp = 2 powr (of_int e - 52)
            in of_int (roundTiesToEven (x / ulp)) * ulp))"

definition threshold_binary64 :: "StencilSettings \<Rightarrow> real" where
  "threshold_binary64 s = binary64 (detail s * binary64 2.55)"

section \<open>Segment export of the board\<close>

text \<open>
  The content scan of \<open>crop\<close>: it steps through the tile's byte buffer 100 bytes at a
  time, looks at the three bytes from each stop, and leaves the loop at the first one
  below 250.
\<close>

function scanContent :: "byte list \<Rightarrow> nat \<Rightarrow> bool" where
  "scanContent d i =
     (if i < length d
      then (let r = rd d i; g = rd d (i + 1); b = rd d (i + 2)
            in if lt_js r 250 \<or> lt_js g 250 \<or> lt_js b 250 then True
               else scanContent d (i + 100))
      else False)"
  by pat_completeness auto
termination
  by (relation "measure (\<lambda>(d, i). length d - i)") auto

declare scanContent.simps [simp del]

record Segment =
  segment_data :: "byte list"
  segment_name :: string

text \<open>
  What the canvas draws is the platform's business: \<open>pixels x y w h\<close> stands for the
  bytes that \<open>getImageData\<close> returns for the temporary canvas after the board region
  at \<open>(x, y)\<close> of size \<open>w\<close> by \<open>h\<close> has been drawn on white, and the same bytes stand
  for the PNG made from that canvas. Freshly created canvases give a 2D context.
\<close>

type_synonym tile_pixels = "real \<Rightarrow> real \<Rightarrow> real \<Rightarrow> real \<Rightarrow> byte list"

definition crop :: "tile_pixels \<Rightarrow> real \<Rightarrow> real \<Rightarrow> real \<Rightarrow> real \<Rightarrow> string \<Rightarrow> Segment list \<Rightarrow> Segment list" where
  "crop pixels x y w h suffix segments =
     (let d = pixels x y w h;
          hasContent = scanContent d 0
      in if hasContent
         then segments @ [\<lparr>segment_data = d, segment_name = ''Segment_'' @ suffix @ ''.png''\<rparr>]
         else segments)"

datatype SplitMode = Vertical | Horizontal | Quadrant

datatype BoardMode = Tabloid | Poster_2x2

definition CM_TO_PX :: real where
  "CM_TO_PX = 96 / 2.54"

definition BOARD_WIDTH :: "BoardMode \<Rightarrow> real" where
  "BOARD_WIDTH boardMode = (case boardMode of Tabloid \<Rightarrow> 27.94 | Poster_2x2 \<Rightarrow> 43.18) * CM_TO_PX"

definition BOARD_HEIGHT :: "BoardMode \<Rightarrow> real" where
  "BOARD_HEIGHT boardMode = (case boardMode of Tabloid \<Rightarrow> 43.18 | Poster_2x2 \<Rightarrow> 55.88) * CM_TO_PX"

text \<open>The decimal numeral of the template string \<open>`${i+1}`\<close>.\<close>

fun decimal :: "nat \<Rightarrow> string" where
  "decimal n = (if n < 10 then [char_of (48 + n)] else decimal (n div 10) @ [char_of (48 + n mod 10)])"

text \<open>
  The export either tells the user that nothing is there to export, or starts one
  download per segment.
\<close>

datatype ExportOutcome = Alert string | Downloads "Segment list"

definition exportSegments :: "tile_pixels \<Rightarrow> BoardMode \<Rightarrow> SplitMode \<Rightarrow> nat \<Rightarrow> Segment list" where
  "exportSegments pixels boardMode splitMode parts =
     (let activeSplitMode = (if boardMode = Poster_2x2 then Quadrant else splitMode) in
      case activeSplitMode of
        Quadrant \<Rightarrow>
          (let w = BOARD_WIDTH boardMode / 2; h = BOARD_HEIGHT boardMode / 2 in
           crop pixels w h w h ''4_BottomRight''
             (crop pixels 0 h w h ''3_BottomLeft''
               (crop pixels w 0 w h ''2_TopRight''
                 (crop pixels 0 0 w h ''1_TopLeft'' []))))
      | Vertical \<Rightarrow>
          (let w = BOARD_WIDTH boardMode / real parts in
           fold (\<lambda>i. crop pixels (real i * w) 0 w (BOARD_HEIGHT boardMode) (decimal (i + 1)))
             [0..<parts] [])
      | Horizontal \<Rightarrow>
          (let h = BOARD_HEIGHT boardMode / real parts in
           fold (\<lambda>i. crop pixels 0 (real i * h) (BOARD_WIDTH boardMode) h (decimal (i + 1)))
             [0..<parts] []))"

definition performExport :: "tile_pixels \<Rightarrow> BoardMode \<Rightarrow> SplitMode \<Rightarrow> nat \<Rightarrow> ExportOutcome" where
  "performExport pixels boardMode splitMode parts =
     (let segments = exportSegments pixels boardMode splitMode parts in
      if length segments = 0
      then Alert ''No active segments found. Place the image within the board area.''
      else Downloads segments)"

text \<open>
  Notions for stating what the export keeps: whether the three bytes from position \<open>i\<close>
  hold a value below 250; the crop calls of an export, in order; the pixels and the
  segment of a crop call; and the tiles of a board that is white everywhere.
\<close>

definition sampleNonWhite :: "byte list \<Rightarrow> nat \<Rightarrow> bool" where
  "sampleNonWhite d i = (lt_js (rd d i) 250 \<or> lt_js (rd d (i + 1)) 250 \<or> lt_js (rd d (i + 2)) 250)"

type_synonym crop_request = "real \<times> real \<times> real \<times> real \<times> string"

definition cropRequests :: "BoardMode \<Rightarrow> SplitMode \<Rightarrow> nat \<Rightarrow> crop_request list" where
  "cropRequests boardMode splitMode parts =
     (case (if boardMode = Poster_2x2 then Quadrant else splitMode) of
        Quadrant \<Rightarrow>
          (let w = BOARD_WIDTH boardMode / 2; h = BOARD_HEIGHT boardMode / 2 in
           [(0, 0, w, h, ''1_TopLeft''), (w, 0, w, h, ''2_TopRight''),
            (0, h, w, h, ''3_BottomLeft''), (w, h, w, h, ''4_BottomRight'')])
      | Vertical \<Rightarrow>
          (let w = BOARD_WIDTH boardMode / real parts in
           map (\<lambda>i. (real i * w, 0, w, BOARD_HEIGHT boardMode, decimal (i + 1))) [0..<parts])
      | Horizontal \<Rightarrow>
          (let h = BOARD_HEIGHT boardMode / real parts in
           map (\<lambda>i. (0, real i * h, BOARD_WIDTH boardMode, h, decimal (i + 1))) [0..<parts]))"

definition tileOf :: "tile_pixels \<Rightarrow> crop_request \<Rightarrow> byte list" where
  "tileOf pixels = (\<lambda>(x, y, w, h, suffix). pixels x y w h)"

definition segmentOf :: "tile_pixels \<Rightarrow> crop_request \<Rightarrow> Segment" where
  "segmentOf pixels = (\<lambda>(x, y, w, h, suffix).
     \<lparr>segment_data = pixels x y w h, segment_name = ''Segment_'' @ suffix @ ''.png''\<rparr>)"

definition whiteTiles :: tile_pixels where
  "whiteTiles = (\<lambda>x y w h. replicate 400 255)"

section \<open>segmentImage\<close>

text \<open>
  A canvas is known here by its size and by whether \<open>getContext('2d')\<close> gives a
  context. A part stands for the canvas that \<open>segmentImage\<close> makes for one grid cell:
  the source rectangle that is copied into it and whether the top-left registration
  marks are drawn; the bottom-right marks are always drawn.
\<close>

record Canvas =
  canvas_width :: nat
  canvas_height :: nat
  context2d :: bool

record Part =
  part_x :: int
  part_y :: int
  part_w :: int
  part_h :: int
  topLeftMarks :: bool

datatype DOMException = InvalidStateError

definition overlap :: int where
  "overlap = 50"

text \<open>
  \<open>Math.ceil(width / cols)\<close>. For \<open>cols = 0\<close> the source's quotient is infinite or
  NaN; the value is then never used, since the loop over the columns does not run (and
  likewise for the rows).
\<close>

definition segmentSize :: "nat \<Rightarrow> nat \<Rightarrow> int" where
  "segmentSize extent count = \<lceil>real extent / real count\<rceil>"

definition partRect :: "nat \<Rightarrow> nat \<Rightarrow> nat \<Rightarrow> nat \<Rightarrow> nat \<Rightarrow> nat \<Rightarrow> Part" where
  "partRect width' height' rows cols r c =
     (let segmentWidth = segmentSize width' cols;
          segmentHeight = segmentSize height' rows;
          x = max 0 (int c * segmentWidth - (if c > 0 then overlap else 0));
          y = max 0 (int r * segmentHeight - (if r > 0 then overlap else 0));
          w = min (int width' - x)
                (segmentWidth + (if c > 0 then overlap else 0)
                   + (if int c < int cols - 1 then overlap else 0));
          h = min (int height' - y)
                (segmentHeight + (if r > 0 then overlap else 0)
                   + (if int r < int rows - 1 then overlap else 0))
      in \<lparr>part_x = x, part_y = y, part_w = w, part_h = h, topLeftMarks = (c > 0 \<or> r > 0)\<rparr>)"

text \<open>
  \<open>drawImage\<close> with a source canvas of zero width or height throws an
  \<open>InvalidStateError\<close>: the one way in which a step of the loop body can fail.
\<close>

definition drawPart :: "Canvas \<Rightarrow> nat \<Rightarrow> nat \<Rightarrow> nat \<Rightarrow> nat \<Rightarrow> DOMException + Part" where
  "drawPart sourceCanvas rows cols r c =
     (if canvas_width sourceCanvas = 0 \<or> canvas_height sourceCanvas = 0
      then Inl InvalidStateError
      else Inr (partRect (canvas_width sourceCanvas) (canvas_height sourceCanvas) rows cols r c))"

fun collectParts :: "Canvas \<Rightarrow> nat \<Rightarrow> nat \<Rightarrow> (nat \<times> nat) list \<Rightarrow> Part list \<Rightarrow> DOMException + Part list" where
  "collectParts sourceCanvas rows cols [] parts = Inr parts"
| "collectParts sourceCanvas rows cols ((r, c) # cells) parts =
     (case drawPart sourceCanvas rows cols r c of
        Inl e \<Rightarrow> Inl e
      | Inr p \<Rightarrow> collectParts sourceCanvas rows cols cells (parts @ [p]))"

text \<open>The cells in the order of the nested loops: row by row, each row left to right.\<close>

definition segmentImage :: "Canvas \<Rightarrow> nat \<Rightarrow> nat \<Rightarrow> DOMException + Part list" where
  "segmentImage sourceCanvas rows cols =
     (if \<not> context2d sourceCanvas then Inr []
      else collectParts sourceCanvas rows cols (List.product [0..<rows] [0..<cols]) [])"

text \<open>
  The pixels of a part's source rectangle, and the grid cell that the part belongs to.
  The part's rectangle reaches into the neighbouring cells by its overlap bands;
  without them it is the rectangle cut to its own cell.
\<close>

definition sourceRect :: "Part \<Rightarrow> (int \<times> int) set" where
  "sourceRect p = {part_x p ..< part_x p + part_w p} \<times> {part_y p ..< part_y p + part_h p}"

definition ownCell :: "nat \<Rightarrow> nat \<Rightarrow> nat \<Rightarrow> nat \<Rightarrow> nat \<Rightarrow> nat \<Rightarrow> (int \<times> int) set" where
  "ownCell width' height' rows cols r c =
     {int c * segmentSize width' cols ..< (int c + 1) * segmentSize width' cols}
       \<times> {int r * segmentSize height' rows ..< (int r + 1) * segmentSize height' rows}"

definition withoutOverlap :: "nat \<Rightarrow> nat \<Rightarrow> nat \<Rightarrow> nat \<Rightarrow> nat \<Rightarrow> nat \<Rightarrow> (int \<times> int) set" where
  "withoutOverlap width' height' rows cols r c =
     sourceRect (partRect width' height' rows cols r c) \<inter> ownCell width' height' rows cols r c"

section \<open>Inputs used in the examples\<close>

definition DEFAULT_SETTINGS :: StencilSettings where
  "DEFAULT_SETTINGS =
     \<lparr>contrast = 10, brightness = 0, edgeIntensity = 80, thickness = 2, detail = 30,
      smoothing = 2, mode = Edge, invert = False, flipX = False, lineColor = ''#000000'',
      showThermalWarnings = False\<rparr>"

text \<open>An image with the same pixel everywhere.\<close>

definition uniformImage :: "nat \<Rightarrow> nat \<Rightarrow> byte list \<Rightarrow> ImageData" where
  "uniformImage w h pixel = \<lparr>width = w, height = h, data = concat (replicate (w * h) pixel)\<rparr>"

text \<open>A 2x1 image: an opaque black pixel to the left of an opaque white one.\<close>

definition twoPixelImage :: ImageData where
  "twoPixelImage = \<lparr>width = 2, height = 1, data = [0, 0, 0, 255, 255, 255, 255, 255]\<rparr>"

text \<open>The luminance that pass 1 stores for a pixel with the bytes \<open>r\<close>, \<open>g\<close>, \<open>b\<close>.\<close>

definition lumOf :: "StencilSettings \<Rightarrow> byte \<Rightarrow> byte \<Rightarrow> byte \<Rightarrow> real" where
  "lumOf s r g b = getLum (adjust s (real (unat r))) (adjust s (real (unat g))) (adjust s (real (unat b)))"

section \<open>Notions used in the proofs about the render loop\<close>

text \<open>
  The four bytes of pixel \<open>j\<close> of a buffer, and the pixel index that the render loop
  reads for the pixel index \<open>i\<close> it writes.
\<close>

definition px :: "byte list \<Rightarrow> nat \<Rightarrow> byte list" where
  "px fb j = [rd0 fb (4 * j), rd0 fb (4 * j + 1), rd0 fb (4 * j + 2), rd0 fb (4 * j + 3)]"

definition src :: "bool \<Rightarrow> nat \<Rightarrow> nat \<Rightarrow> nat" where
  "src flip w i = (i div w) * w + (if flip then w - 1 - i mod w else i mod w)"

section \<open>Properties of the thermal analysis\<close>

lemma byte_below_50_not_above_100: "a < (50::byte) \<Longrightarrow> \<not> 100 < a"
proof
  assume "a < 50" and "100 < a"
  then have "(100::byte) < 50" by (rule less_trans [rotated])
  then show False by simp
qed

lemma guard_unsatisfiable: "lt_js r 50 \<Longrightarrow> \<not> gt_js r 100"
  by (cases r) (simp_all add: lt_js_def gt_js_def byte_below_50_not_above_100)

lemma flag_pixel_id: "flag_pixel d w y x outData = outData"
  by (simp add: flag_pixel_def Let_def isBlack_def guard_unsatisfiable)

lemma fold_id: "(\<And>x s. f x s = s) \<Longrightarrow> fold f xs s = s"
  by (induction xs arbitrary: s) simp_all

lemma analyze_overlay_blank:
  "analyzeThermalIssues originalData processedData =
     new_ImageData (width processedData) (height processedData)"
  by (simp add: analyzeThermalIssues_def Let_def flag_pixel_id fold_id)

section \<open>Loops that fill a buffer pixel by pixel\<close>

lemma upt_next_row: "[0..<h * w + w] = [0..<h * w] @ map (\<lambda>x. h * w + x) [0..<w]"
proof -
  have "[0..<h * w + w] = [0..<h * w] @ [h * w..<h * w + w]"
    by (rule upt_add_eq_append) simp
  moreover have "[h * w..<h * w + w] = map (\<lambda>x. h * w + x) [0..<w]"
    by (simp add: map_add_upt add.commute)
  ultimately show ?thesis by simp
qed

lemma fold_rows_flat:
  assumes "0 < w"
  shows "fold (\<lambda>y. fold (g y) [0..<w]) [0..<h] s = fold (\<lambda>i. g (i div w) (i mod w)) [0..<h * w] s"
proof (induction h)
  case 0
  then show ?case by simp
next
  case (Suc h)
  have row: "fold ((\<lambda>i. g (i div w) (i mod w)) \<circ> (\<lambda>x. h * w + x)) [0..<w] t = fold (g h) [0..<w] t" for t
    using assms by (intro fold_cong) auto
  have "fold (\<lambda>i. g (i div w) (i mod w)) [0..<Suc h * w] s
      = fold (\<lambda>i. g (i div w) (i mod w)) [0..<h * w + w] s"
    by (simp add: add.commute)
  also have "\<dots> = fold (g h) [0..<w] (fold (\<lambda>i. g (i div w) (i mod w)) [0..<h * w] s)"
    unfolding upt_next_row by (simp add: fold_map row)
  also have "\<dots> = fold (\<lambda>y. fold (g y) [0..<w]) [0..<Suc h] s"
    using Suc.IH by simp
  finally show ?case by simp
qed

lemma length_blocks:
  "(\<And>i. i < n \<Longrightarrow> length (blk i) = 4) \<Longrightarrow> length (concat (map blk [0..<n])) = 4 * n"
  by (induction n) simp_all

lemma nth_blocks:
  assumes "\<And>i. i < n \<Longrightarrow> length (blk i) = 4" and "j < 4 * n"
  shows "concat (map blk [0..<n]) ! j = blk (j div 4) ! (j mod 4)"
  using assms
proof (induction n)
  case 0
  then show ?case by simp
next
  case (Suc n)
  have len: "length (concat (map blk [0..<n])) = 4 * n"
    using Suc.prems(1) by (intro length_blocks) simp
  show ?case
  proof (cases "j < 4 * n")
    case True
    have "concat (map blk [0..<n]) ! j = blk (j div 4) ! (j mod 4)"
      using Suc.prems(1) True by (intro Suc.IH) simp_all
    then show ?thesis using True len by (simp add: nth_append)
  next
    case False
    with Suc.prems(2) have "j div 4 = n" "j mod 4 = j - 4 * n" by presburger+
    then show ?thesis using False len by (simp add: nth_append)
  qed
qed

lemma fold_blocks:
  assumes step: "\<And>i buf. i < n \<Longrightarrow> length buf = L \<Longrightarrow> f i buf = take (4 * i) buf @ blk i @ drop (4 * i + 4) buf"
    and blk: "\<And>i. i < n \<Longrightarrow> length (blk i) = 4"
    and "4 * n \<le> L" "length buf0 = L"
  shows "fold f [0..<n] buf0 = concat (map blk [0..<n]) @ drop (4 * n) buf0"
  using assms
proof (induction n)
  case 0
  then show ?case by simp
next
  case (Suc n)
  have len: "length (concat (map blk [0..<n])) = 4 * n"
    using Suc.prems(2) by (intro length_blocks) simp
  have IH: "fold f [0..<n] buf0 = concat (map blk [0..<n]) @ drop (4 * n) buf0"
    using Suc.prems by (intro Suc.IH) auto
  have lenb: "length (concat (map blk [0..<n]) @ drop (4 * n) buf0) = L"
    using len Suc.prems(3,4) by simp
  have "f n (concat (map blk [0..<n]) @ drop (4 * n) buf0)
      = concat (map blk [0..<n]) @ blk n @ drop (4 * n + 4) buf0"
    using len by (simp add: Suc.prems(1)[OF _ lenb] add.commute)
  then show ?case
    by (simp add: IH add.commute)
qed

lemma wr_list_update: "wr xs i v = xs[i := v]"
  by (simp add: wr_def list_update_beyond)

lemma wr4_take_drop:
  assumes "k + 4 \<le> length buf"
  shows "wr (wr (wr (wr buf k a) (k + 1) b) (k + 2) c) (k + 3) d = take k buf @ [a, b, c, d] @ drop (k + 4) buf"
proof (rule nth_equalityI)
  show "length (wr (wr (wr (wr buf k a) (k + 1) b) (k + 2) c) (k + 3) d) = length (take k buf @ [a, b, c, d] @ drop (k + 4) buf)"
    using assms by (simp add: wr_list_update)
next
  fix i assume "i < length (wr (wr (wr (wr buf k a) (k + 1) b) (k + 2) c) (k + 3) d)"
  then have i: "i < length buf" by (simp add: wr_list_update)
  consider "i < k" | "i = k" | "i = k + 1" | "i = k + 2" | "i = k + 3" | "k + 4 \<le> i" by linarith
  then show "wr (wr (wr (wr buf k a) (k + 1) b) (k + 2) c) (k + 3) d ! i = (take k buf @ [a, b, c, d] @ drop (k + 4) buf) ! i"
  proof cases
    case 6
    then have "i - k = Suc (Suc (Suc (Suc (i - (k + 4)))))" by simp
    then show ?thesis using assms i 6
      by (simp add: wr_list_update nth_append add.commute)
  qed (use assms i in \<open>simp_all add: wr_list_update nth_append nth_list_update\<close>)
qed

lemma render_pixel_blocks:
  assumes "4 * (y * w + x) + 4 \<le> length buf"
  shows "render_pixel flip w fb y x buf =
           take (4 * (y * w + x)) buf @ px fb (y * w + (if flip then w - 1 - x else x))
             @ drop (4 * (y * w + x) + 4) buf"
proof -
  have "(y * w + x) * 4 + 4 \<le> length buf" using assms by (simp add: mult.commute)
  from wr4_take_drop [OF this] show ?thesis
    by (simp add: render_pixel_def Let_def px_def mult.commute)
qed

lemma render_blocks:
  assumes "0 < w" and "length buf = 4 * (h * w)"
  shows "render flip w h fb buf = concat (map (\<lambda>i. px fb (src flip w i)) [0..<h * w])"
proof -
  have "render flip w h fb buf
      = fold (\<lambda>i. render_pixel flip w fb (i div w) (i mod w)) [0..<h * w] buf"
    unfolding render_def using assms(1) by (rule fold_rows_flat)
  also have "\<dots> = concat (map (\<lambda>i. px fb (src flip w i)) [0..<h * w]) @ drop (4 * (h * w)) buf"
  proof (rule fold_blocks [where L = "4 * (h * w)"])
    fix i b assume "i < h * w" and "length (b :: byte list) = 4 * (h * w)"
    then have "4 * (i div w * w + i mod w) + 4 \<le> length b" by simp
    from render_pixel_blocks [OF this, of flip fb]
    show "render_pixel flip w fb (i div w) (i mod w) b
        = take (4 * i) b @ px fb (src flip w i) @ drop (4 * i + 4) b"
      by (simp add: src_def)
  qed (simp_all add: px_def assms)
  finally show ?thesis using assms(2) by simp
qed

lemma px_nth: "k < 4 \<Longrightarrow> 4 * j + k < length fb \<Longrightarrow> px fb j ! k = fb ! (4 * j + k)"
proof -
  assume "k < 4" and len: "4 * j + k < length fb"
  then consider "k = 0" | "k = 1" | "k = 2" | "k = 3" by linarith
  then show ?thesis using len by cases (simp_all add: px_def rd0_def rd_def)
qed

lemma px_self: "length fb = 4 * n \<Longrightarrow> concat (map (px fb) [0..<n]) = fb"
proof (rule nth_equalityI)
  assume len: "length fb = 4 * n"
  show "length (concat (map (px fb) [0..<n])) = length fb"
    using len by (simp add: length_blocks px_def)
  fix j assume "j < length (concat (map (px fb) [0..<n]))"
  then have j: "j < 4 * n" by (simp add: length_blocks px_def)
  then have "concat (map (px fb) [0..<n]) ! j = px fb (j div 4) ! (j mod 4)"
    by (intro nth_blocks) (simp_all add: px_def)
  also have "\<dots> = fb ! (4 * (j div 4) + j mod 4)"
    using j len by (intro px_nth) simp_all
  finally show "concat (map (px fb) [0..<n]) ! j = fb ! j" by simp
qed

lemma px_of_blocks:
  assumes "\<And>i. i < n \<Longrightarrow> length (blk i) = 4" and "j < n"
  shows "px (concat (map blk [0..<n])) j = blk j"
proof (rule nth_equalityI)
  show "length (px (concat (map blk [0..<n])) j) = length (blk j)"
    using assms by (simp add: px_def)
  fix k assume "k < length (px (concat (map blk [0..<n])) j)"
  then have k: "k < 4" by (simp add: px_def)
  have len: "length (concat (map blk [0..<n])) = 4 * n"
    using assms(1) by (rule length_blocks)
  have lt: "4 * j + k < 4 * n" using k assms(2) by simp
  have "px (concat (map blk [0..<n])) j ! k = concat (map blk [0..<n]) ! (4 * j + k)"
    using k lt len by (intro px_nth) simp_all
  also have "\<dots> = blk ((4 * j + k) div 4) ! ((4 * j + k) mod 4)"
    using assms(1) lt by (rule nth_blocks)
  also have "\<dots> = blk j ! k" using k by simp
  finally show "px (concat (map blk [0..<n])) j ! k = blk j ! k" .
qed

lemma src_noflip: "src False w i = i"
  by (simp add: src_def)

lemma src_less: "0 < w \<Longrightarrow> i < h * w \<Longrightarrow> src True w i < h * w"
proof -
  assume w: "0 < w" and i: "i < h * w"
  then have "i div w < h" by (simp add: less_mult_imp_div_less)
  then have "Suc (i div w) * w \<le> h * w" by (intro mult_le_mono1) simp
  moreover have "src True w i < Suc (i div w) * w" using w by (simp add: src_def)
  ultimately show ?thesis by linarith
qed

lemma src_involution: "0 < w \<Longrightarrow> src True w (src True w i) = i"
proof -
  assume w: "0 < w"
  have m: "w - 1 - i mod w < w" using w by simp
  have d: "src True w i div w = i div w" using m w by (simp add: src_def)
  have r: "src True w i mod w = w - 1 - i mod w" using m by (simp add: src_def)
  have "i mod w < w" using w by simp
  then have "w - 1 - (w - 1 - i mod w) = i mod w" by linarith
  then show ?thesis unfolding src_def [of True w "src True w i"] d r by simp
qed

lemma render_noflip:
  assumes "0 < w" and "length buf = 4 * (h * w)" and "length fb = 4 * (h * w)"
  shows "render False w h fb buf = fb"
  using assms by (simp add: render_blocks src_noflip px_self)

lemma render_flip_twice:
  assumes w: "0 < w" and "length b1 = 4 * (h * w)" and "length b2 = 4 * (h * w)"
    and "length fb = 4 * (h * w)"
  shows "render True w h (render True w h fb b1) b2 = fb"
proof -
  let ?blk = "\<lambda>i. px fb (src True w i)"
  have inner: "render True w h fb b1 = concat (map ?blk [0..<h * w])"
    using assms by (simp add: render_blocks)
  have len: "length (render True w h fb b1) = 4 * (h * w)"
    unfolding inner by (rule length_blocks) (simp add: px_def)
  have "render True w h (render True w h fb b1) b2
      = concat (map (\<lambda>i. px (concat (map ?blk [0..<h * w])) (src True w i)) [0..<h * w])"
    using w assms(3) by (simp add: render_blocks inner)
  also have "\<dots> = concat (map (px fb) [0..<h * w])"
  proof (rule arg_cong [where f = concat], rule map_cong [OF refl])
    fix i assume "i \<in> set [0..<h * w]"
    then have "src True w i < h * w" using w by (simp add: src_less)
    then have "px (concat (map ?blk [0..<h * w])) (src True w i) = ?blk (src True w i)"
      by (intro px_of_blocks) (simp_all add: px_def)
    then show "px (concat (map ?blk [0..<h * w])) (src True w i) = px fb i"
      using w by (simp add: src_involution)
  qed
  also have "\<dots> = fb" using assms(4) by (rule px_self)
  finally show ?thesis .
qed

section \<open>The pipeline on its settings and on uniform images\<close>

lemma grayscale_cong:
  "contrast s = contrast t \<Longrightarrow> brightness s = brightness t \<Longrightarrow> grayscale s d = grayscale t d"
  by (induction s d rule: grayscale.induct) (simp_all add: adjust_def contrastFactor_def)

lemma grayBufferOf_cong:
  "contrast s = contrast t \<Longrightarrow> brightness s = brightness t \<Longrightarrow> smoothing s = smoothing t
   \<Longrightarrow> grayBufferOf s img = grayBufferOf t img"
  by (simp add: grayBufferOf_def smooth_def grayscale_cong [of s t])

lemma sobel_cong: "edgeIntensity s = edgeIntensity t \<Longrightarrow> sobel s = sobel t"
  by (intro ext) (simp add: sobel_def)

lemma thresholdIsLine_cong: "detail s = detail t \<Longrightarrow> thresholdIsLine s = thresholdIsLine t"
  by (intro ext) (simp add: thresholdIsLine_def)

lemma edgeIsLine_cong:
  "detail s = detail t \<Longrightarrow> mode s = mode t \<Longrightarrow> edgeIsLine s = edgeIsLine t"
  by (intro ext) (simp add: edgeIsLine_def)

lemma dilatedGrayOf_cong:
  "contrast s = contrast t \<Longrightarrow> brightness s = brightness t \<Longrightarrow> smoothing s = smoothing t
   \<Longrightarrow> edgeIntensity s = edgeIntensity t \<Longrightarrow> thickness s = thickness t
   \<Longrightarrow> dilatedGrayOf s img = dilatedGrayOf t img"
  by (simp add: dilatedGrayOf_def dilate_def edgeMagnitude_def Let_def
      sobel_cong [of s t] grayBufferOf_cong [of s t] cong: if_cong)

lemma lineBeforeInvert_cong:
  "contrast s = contrast t \<Longrightarrow> brightness s = brightness t \<Longrightarrow> smoothing s = smoothing t
   \<Longrightarrow> edgeIntensity s = edgeIntensity t \<Longrightarrow> thickness s = thickness t
   \<Longrightarrow> detail s = detail t \<Longrightarrow> mode s = mode t
   \<Longrightarrow> lineBeforeInvert s img = lineBeforeInvert t img"
  by (simp add: lineBeforeInvert_def Let_def thresholdIsLine_cong [of s t]
      edgeIsLine_cong [of s t] grayBufferOf_cong [of s t] dilatedGrayOf_cong [of s t]
      cong: Mode.case_cong)

lemma length_lineBeforeInvert: "length (lineBeforeInvert s img) = width img * height img"
  by (simp add: lineBeforeInvert_def Let_def split: Mode.split)

lemma length_lineClassification: "length (lineClassification s img) = width img * height img"
  by (simp add: lineClassification_def length_lineBeforeInvert)

lemma length_painted: "length (concat (map (paint c) bs)) = 4 * length bs"
  by (induction bs) (simp_all add: paint_def)

lemma length_finalBufferOf: "length (finalBufferOf s img) = 4 * (height img * width img)"
  by (simp add: finalBufferOf_def length_painted length_lineClassification mult.commute)

lemma invertStep_cong: "invert s = invert t \<Longrightarrow> invertStep s = invertStep t"
  by (rule ext) (simp add: invertStep_def)

lemma finalBufferOf_flipX: "finalBufferOf (s\<lparr>flipX := b\<rparr>) img = finalBufferOf s img"
  by (simp add: finalBufferOf_def lineClassification_def
      invertStep_cong [of "s\<lparr>flipX := b\<rparr>" s]
      lineBeforeInvert_cong [of "s\<lparr>flipX := b\<rparr>" s])

lemma processed_data:
  "data (processed (processStencil img s))
     = render (flipX s) (width img) (height img) (finalBufferOf s img) (data img)"
  by (simp add: processStencil_def Let_def)

lemma wf_image_length: "wf_image img \<Longrightarrow> length (data img) = 4 * (height img * width img)"
  by (simp add: wf_image_def mult.commute mult.left_commute)

lemma grayscale_uniform:
  "grayscale s (concat (replicate n [r, g, b, a]))
     = replicate n (getLum (adjust s (real (unat r))) (adjust s (real (unat g))) (adjust s (real (unat b))))"
  by (induction n) simp_all

lemma fold_preserves:
  assumes "Inv st" and "\<And>e t. e \<in> set es \<Longrightarrow> Inv t \<Longrightarrow> Inv (g e t)"
  shows "Inv (fold g es st)"
  using assms by (induction es arbitrary: st) simp_all

lemma fold_establish:
  assumes "x \<in> set xs" and "P s"
    and "\<And>y s. y \<in> set xs \<Longrightarrow> P s \<Longrightarrow> P (f y s)"
    and "\<And>s. P s \<Longrightarrow> Q (f x s)"
    and "\<And>y s. y \<in> set xs \<Longrightarrow> Q s \<Longrightarrow> Q (f y s)"
  shows "Q (fold f xs s)"
  using assms
proof (induction xs arbitrary: s)
  case Nil
  then show ?case by simp
next
  case (Cons a xs)
  show ?case
  proof (cases "x = a")
    case True
    have "Q (f a s)" using Cons.prems(2,4) True by simp
    then have "Q (fold f xs (f a s))"
      using Cons.prems(5) by (rule fold_preserves [where Inv = Q]) simp_all
    then show ?thesis by simp
  next
    case False
    then have "x \<in> set xs" using Cons.prems(1) by simp
    moreover have "P (f a s)" using Cons.prems(2,3) by simp
    ultimately have "Q (fold f xs (f a s))"
      using Cons.prems(3,4,5) by (intro Cons.IH) simp_all
    then show ?thesis by simp
  qed
qed

lemma pixel_index_less: "a < h \<Longrightarrow> b < w \<Longrightarrow> a * w + b < w * (h::nat)"
proof -
  assume a: "a < h" and b: "b < w"
  have "a * w + b < Suc a * w" using b by simp
  moreover have "Suc a * w \<le> h * w" using a by (intro mult_le_mono1) simp
  moreover have "h * w = w * h" by (rule mult.commute)
  ultimately show ?thesis by linarith
qed

lemma window_index_nat:
  assumes "0 \<le> ny" "0 \<le> nx"
  shows "nat (ny * int w + nx) = nat ny * w + nat nx"
  using assms by (simp add: nat_add_distrib nat_mult_distrib)

lemma window_index_less:
  assumes "0 \<le> ny" "ny < int h" "0 \<le> nx" "nx < int w"
  shows "nat (ny * int w + nx) < w * h"
proof -
  have "nat ny < h" "nat nx < w" using assms by simp_all
  then have "nat ny * w + nat nx < w * h" by (rule pixel_index_less)
  then show ?thesis using assms by (simp only: window_index_nat)
qed

lemma box_mean_uniform:
  assumes y: "y < h" and x: "x < w" and r: "0 \<le> r"
    and g: "\<And>i. i < w * h \<Longrightarrow> g ! i = v"
  shows "box_mean w h g r y x = v"
proof -
  define step where "step = (\<lambda>by bx (p :: real \<times> nat). case p of (acc, count) \<Rightarrow>
      let ny = int y + by; nx = int x + bx in
      if 0 \<le> ny \<and> ny < int h \<and> 0 \<le> nx \<and> nx < int w
      then (acc + g ! nat (ny * int w + nx), count + 1) else (acc, count))"
  define P where "P = (\<lambda>p :: real \<times> nat. fst p = real (snd p) * v)"
  define Q where "Q = (\<lambda>p :: real \<times> nat. fst p = real (snd p) * v \<and> 0 < snd p)"
  have bm: "box_mean w h g r y x
      = (case fold (\<lambda>by. fold (step by) [- r..r]) [- r..r] (0, 0) of (acc, count) \<Rightarrow> acc / real count)"
    by (simp add: box_mean_def step_def)
  have val: "g ! nat (ny * int w + nx) = v"
    if "0 \<le> ny \<and> ny < int h \<and> 0 \<le> nx \<and> nx < int w" for ny nx
    using that by (intro g window_index_less) simp_all
  have more: "(1 + real c) * v = real c * v + v" for c :: nat
    by (simp add: distrib_right)
  have stepP: "P (step dy dx p)" if "P p" for dy dx p
    using that by (cases p) (simp add: P_def step_def Let_def val more)
  have stepQ: "Q (step dy dx p)" if "Q p" for dy dx p
    using that by (cases p) (simp add: Q_def step_def Let_def val more)
  have step0: "Q (step 0 0 p)" if "P p" for p
    using that y x val [of "int y" "int x"]
    by (cases p) (simp add: P_def Q_def step_def Let_def more)
  have zero: "0 \<in> set [- r..r]" using r by simp
  have rowP: "P (fold (step dy) [- r..r] p)" if "P p" for dy p
    using that by (rule fold_preserves [where Inv = P]) (rule stepP)
  have rowQ: "Q (fold (step dy) [- r..r] p)" if "Q p" for dy p
    using that by (rule fold_preserves [where Inv = Q]) (rule stepQ)
  have row0: "Q (fold (step 0) [- r..r] p)" if "P p" for p
    using zero that by (rule fold_establish [where P = P and Q = Q]) (simp_all add: stepP stepQ step0)
  have "P (0, 0)" by (simp add: P_def)
  with zero have "Q (fold (\<lambda>by. fold (step by) [- r..r]) [- r..r] (0, 0))"
    by (rule fold_establish [where P = P and Q = Q]) (simp_all add: rowP rowQ row0)
  then show ?thesis
    unfolding bm by (cases "fold (\<lambda>by. fold (step by) [- r..r]) [- r..r] (0, 0)") (simp add: Q_def)
qed

lemma rows_of_const:
  assumes "\<And>y x. y < h \<Longrightarrow> x < w \<Longrightarrow> f y x = v"
  shows "rows_of w h f = replicate (w * h) v"
proof -
  have row: "map (f y) [0..<w] = replicate w v" if "y < h" for y
  proof -
    have "map (f y) [0..<w] = map (\<lambda>x. v) [0..<w]"
      using that assms by (intro map_cong) simp_all
    then show ?thesis by (simp add: map_replicate_const)
  qed
  have "rows_of w h f = concat (map (\<lambda>y. replicate w v) [0..<h])"
    unfolding rows_of_def by (rule arg_cong [where f = concat], rule map_cong) (simp_all add: row)
  also have "\<dots> = replicate (w * h) v"
    by (induction h) (simp_all add: replicate_add [symmetric] add.commute del: replicate_add)
  finally show ?thesis .
qed

lemma smooth_uniform: "smooth s w h (replicate (w * h) v) = replicate (w * h) v"
proof (cases "smoothing s > 0")
  case True
  then have "0 \<le> \<lfloor>smoothing s\<rfloor>" by simp
  then have "rows_of w h (box_mean w h (replicate (w * h) v) \<lfloor>smoothing s\<rfloor>) = replicate (w * h) v"
    by (intro rows_of_const box_mean_uniform) simp_all
  then show ?thesis using True by (simp add: smooth_def)
next
  case False
  then show ?thesis by (simp add: smooth_def)
qed

lemma grayBufferOf_uniform:
  "grayBufferOf s (uniformImage w h [r, g, b, a]) = replicate (w * h) (lumOf s r g b)"
  by (simp add: grayBufferOf_def uniformImage_def grayscale_uniform smooth_uniform lumOf_def)

lemma map_nth_replicate: "map (\<lambda>i. f (replicate n v ! i)) [0..<n] = replicate n (f v)"
proof -
  have "map (\<lambda>i. f (replicate n v ! i)) [0..<n] = map (\<lambda>i. f v) [0..<n]"
    by (intro map_cong) simp_all
  then show ?thesis by (simp add: map_replicate_const)
qed

lemma lineBeforeInvert_threshold_uniform:
  "mode s = Threshold \<Longrightarrow>
   lineBeforeInvert s (uniformImage w h [r, g, b, a])
     = replicate (w * h) (thresholdIsLine s (lumOf s r g b))"
  by (simp add: lineBeforeInvert_def grayBufferOf_uniform)
    (simp add: uniformImage_def map_nth_replicate)

lemma finalBufferOf_threshold_uniform:
  "mode s = Threshold \<Longrightarrow>
   finalBufferOf s (uniformImage w h [r, g, b, a])
     = concat (replicate (w * h)
         (paint (hexToRgb (lineColor s)) (invertStep s (thresholdIsLine s (lumOf s r g b)))))"
  by (simp add: finalBufferOf_def lineClassification_def lineBeforeInvert_threshold_uniform)

lemma concat_const_blocks: "concat (map (\<lambda>i. P) [0..<n]) = concat (replicate n P)"
  by (simp add: map_replicate_const)

lemma render_uniform:
  assumes w: "0 < w" and P: "length P = 4" and buf: "length buf = 4 * (h * w)"
  shows "render flip w h (concat (replicate (h * w) P)) buf = concat (replicate (h * w) P)"
proof -
  let ?fb = "concat (map (\<lambda>i. P) [0..<h * w])"
  have "render flip w h ?fb buf = concat (map (\<lambda>i. px ?fb (src flip w i)) [0..<h * w])"
    using w buf by (rule render_blocks)
  also have "\<dots> = concat (map (\<lambda>i. P) [0..<h * w])"
  proof (rule arg_cong [where f = concat], rule map_cong [OF refl])
    fix i assume "i \<in> set [0..<h * w]"
    then have "src flip w i < h * w"
      using w by (cases flip) (simp_all add: src_less src_noflip)
    then show "px ?fb (src flip w i) = P"
      using P by (intro px_of_blocks) simp_all
  qed
  finally show ?thesis by (simp only: concat_const_blocks)
qed

lemma processStencil_threshold_uniform:
  assumes "0 < w" and "mode s = Threshold"
  shows "processed (processStencil (uniformImage w h [r, g, b, a]) s)
     = uniformImage w h (paint (hexToRgb (lineColor s)) (invertStep s (thresholdIsLine s (lumOf s r g b))))"
proof -
  let ?img = "uniformImage w h [r, g, b, a]"
  let ?P = "paint (hexToRgb (lineColor s)) (invertStep s (thresholdIsLine s (lumOf s r g b)))"
  have wh: "width ?img = w" "height ?img = h" by (simp_all add: uniformImage_def)
  have len: "length (data ?img) = 4 * (h * w)"
    by (simp add: uniformImage_def length_concat sum_list_replicate mult.commute)
  have "data (processed (processStencil ?img s)) = render (flipX s) w h (finalBufferOf s ?img) (data ?img)"
    by (simp add: processed_data wh)
  also have "\<dots> = render (flipX s) w h (concat (replicate (h * w) ?P)) (data ?img)"
    using assms(2) by (simp add: finalBufferOf_threshold_uniform mult.commute)
  also have "\<dots> = concat (replicate (h * w) ?P)"
    using assms(1) _ len by (rule render_uniform) (simp add: paint_def)
  finally have "data (processed (processStencil ?img s)) = concat (replicate (w * h) ?P)"
    by (simp add: mult.commute)
  moreover have "width (processed (processStencil ?img s)) = w" "height (processed (processStencil ?img s)) = h"
    by (simp_all add: processStencil_def Let_def wh)
  ultimately show ?thesis by (simp add: uniformImage_def)
qed

lemma thermalWarnings_blank:
  "thermalWarnings (processStencil img s)
     = (if showThermalWarnings s then Some (new_ImageData (width img) (height img)) else None)"
  by (simp add: processStencil_def Let_def analyze_overlay_blank)

lemma hexToRgb_black: "hexToRgb ''#000000'' = \<lparr>red = 0, green = 0, blue = 0\<rparr>"
  by (simp add: hexToRgb_def hexVal_def parseInt16_def Let_def)

lemma adjust_identity:
  "contrast s = 0 \<Longrightarrow> brightness s = 0 \<Longrightarrow> n \<le> 255 \<Longrightarrow> adjust s (real n) = real n"
  by (simp add: adjust_def contrastFactor_def)

lemma byte_le_255: "unat (v :: byte) \<le> 255"
  using unsigned_less [of v, where ?'a = nat] by simp

lemma lumOf_gray: "contrast s = 0 \<Longrightarrow> brightness s = 0 \<Longrightarrow> lumOf s v v v = real (unat v)"
proof -
  assume "contrast s = 0" and "brightness s = 0"
  then have "adjust s (real (unat v)) = real (unat v)"
    using byte_le_255 by (rule adjust_identity)
  then show ?thesis unfolding lumOf_def getLum_def by (simp only:) (simp add: algebra_simps)
qed

section \<open>The thermal risk analysis\<close>

text \<open>
  C10: for every pair of buffers, \<open>analyzeThermalIssues\<close> returns an overlay of the
  dimensions of the processed buffer in which every byte is zero. The warning colour is
  written only for a pixel whose red byte is below 50 (the test \<open>isBlack\<close>) and above
  100 at once, which no byte is.
\<close>

theorem thermal_overlay_always_blank:
  "analyzeThermalIssues originalData processedData
     = \<lparr>width = width processedData, height = height processedData,
        data = replicate (width processedData * height processedData * 4) 0\<rparr>"
  by (simp add: analyze_overlay_blank new_ImageData_def)

theorem thermal_overlay_always_blank_witness:
  "analyzeThermalIssues (uniformImage 3 3 [150, 150, 150, 255]) (uniformImage 3 3 [0, 0, 0, 255])
     = \<lparr>width = 3, height = 3, data = replicate 36 0\<rparr>"
  using thermal_overlay_always_blank
    [of "uniformImage 3 3 [150, 150, 150, 255]" "uniformImage 3 3 [0, 0, 0, 255]"]
  by (simp add: uniformImage_def)

text \<open>
  C1: a black line pixel of the final buffer is to be flagged exactly when the original
  pixel's red channel lies in [100, 200) and its alpha is above 200. The run below is
  such a case: every original pixel is the opaque mid-gray (150, 150, 150), the
  threshold mode with detail 100 and a black line colour turns every pixel into an
  opaque black line pixel, and the 3x3 overlay that is returned is blank, also at the
  interior pixel (1, 1).
\<close>

theorem thermal_flag_missed:
  "processStencil (uniformImage 3 3 [150, 150, 150, 255])
     (DEFAULT_SETTINGS\<lparr>contrast := 0, mode := Threshold, detail := 100, showThermalWarnings := True\<rparr>)
   = \<lparr>processed = uniformImage 3 3 [0, 0, 0, 255],
      thermalWarnings = Some \<lparr>width = 3, height = 3, data = replicate 36 0\<rparr>\<rparr>"
proof (rule StencilResult.equality)
  let ?s = "DEFAULT_SETTINGS\<lparr>contrast := 0, mode := Threshold, detail := 100, showThermalWarnings := True\<rparr>"
  have "lumOf ?s 150 150 150 = 150"
    by (simp add: lumOf_gray DEFAULT_SETTINGS_def)
  then have "paint (hexToRgb (lineColor ?s)) (invertStep ?s (thresholdIsLine ?s (lumOf ?s 150 150 150)))
      = [0, 0, 0, 255]"
    by (simp add: DEFAULT_SETTINGS_def hexToRgb_black thresholdIsLine_def invertStep_def paint_def)
  moreover have "mode ?s = Threshold" by simp
  ultimately show "processed (processStencil (uniformImage 3 3 [150, 150, 150, 255]) ?s)
      = processed \<lparr>processed = uniformImage 3 3 [0, 0, 0, 255],
          thermalWarnings = Some \<lparr>width = 3, height = 3, data = replicate 36 0\<rparr>\<rparr>"
    by (simp add: processStencil_threshold_uniform)
  show "thermalWarnings (processStencil (uniformImage 3 3 [150, 150, 150, 255]) ?s)
      = thermalWarnings \<lparr>processed = uniformImage 3 3 [0, 0, 0, 255],
          thermalWarnings = Some \<lparr>width = 3, height = 3, data = replicate 36 0\<rparr>\<rparr>"
    by (simp add: thermalWarnings_blank new_ImageData_def uniformImage_def)
qed simp

section \<open>The worked example: a mid-gray image in threshold mode\<close>

lemma white_pixels: "paint c False = [255, 255, 255, 255]"
  by (simp add: paint_def)

lemma binary64_normal:
  assumes "2 ^ k \<le> x" and "x < 2 ^ Suc k"
  shows "binary64 x = of_int (roundTiesToEven (x * 2 ^ 52 / 2 ^ k)) * 2 ^ k / 2 ^ 52"
proof -
  have "(0::real) < 2 ^ k" by simp
  with assms(1) have pos: "0 < x" by linarith
  have "(2::real) powr of_int (int k) \<le> x \<and> x < 2 powr (of_int (int k) + 1)"
    using assms by (simp add: powr_realpow powr_add)
  then have "\<lfloor>log 2 x\<rfloor> = int k"
    using pos by (subst floor_log_eq_powr_iff) simp_all
  then have e: "max \<lfloor>log 2 \<bar>x\<bar>\<rfloor> (- 1022) = int k" using pos by simp
  have ulp: "(2::real) powr (of_int (int k) - 52) = 2 ^ k / 2 ^ 52"
    by (simp add: powr_diff powr_realpow)
  have "binary64 x = of_int (roundTiesToEven (x / (2 ^ k / 2 ^ 52))) * (2 ^ k / 2 ^ 52)"
    unfolding binary64_def Let_def e ulp using pos by simp
  also have "x / (2 ^ k / 2 ^ 52) = x * 2 ^ 52 / 2 ^ k" by simp
  finally show ?thesis by simp
qed

lemma binary64_2_55: "binary64 2.55 = 5742089524897382 / 2 ^ 51"
proof -
  have "binary64 2.55 = of_int (roundTiesToEven (2.55 * 2 ^ 52 / 2 ^ 1)) * 2 ^ 1 / 2 ^ 52"
    by (rule binary64_normal) simp_all
  also have "roundTiesToEven (2.55 * 2 ^ 52 / 2 ^ 1) = 5742089524897382"
    by (simp add: roundTiesToEven_def Let_def)
  finally show ?thesis by simp
qed

lemma threshold_binary64_50: "detail s = 50 \<Longrightarrow> threshold_binary64 s = 127.5 - 1 / 2 ^ 46"
proof -
  assume d: "detail s = 50"
  let ?x = "50 * (5742089524897382 / 2 ^ 51) :: real"
  have "binary64 ?x = of_int (roundTiesToEven (?x * 2 ^ 52 / 2 ^ 6)) * 2 ^ 6 / 2 ^ 52"
    by (rule binary64_normal) simp_all
  also have "roundTiesToEven (?x * 2 ^ 52 / 2 ^ 6) = 8972014882652159"
    by (simp add: roundTiesToEven_def Let_def)
  finally have "binary64 ?x = 127.5 - 1 / 2 ^ 46" by simp
  then show ?thesis unfolding threshold_binary64_def d binary64_2_55 .
qed

text \<open>
  C8, as stated, fails in one point: the threshold that the source computes for detail 50
  is not exactly 127.5. The binary64 product \<open>50 * 2.55\<close> is \<open>127.5 - 2^-46\<close>, the
  binary64 number next below 127.5, which JavaScript prints as 127.49999999999999.
\<close>

theorem threshold_not_exactly_127_5:
  "threshold_binary64 (DEFAULT_SETTINGS\<lparr>contrast := 0, mode := Threshold, detail := 50\<rparr>)
     = 127.5 - 1 / 2 ^ 46
   \<and> threshold_binary64 (DEFAULT_SETTINGS\<lparr>contrast := 0, mode := Threshold, detail := 50\<rparr>)
     \<noteq> 127.5"
proof -
  have "threshold_binary64 (DEFAULT_SETTINGS\<lparr>contrast := 0, mode := Threshold, detail := 50\<rparr>)
     = 127.5 - 1 / 2 ^ 46"
    by (rule threshold_binary64_50) simp
  then show ?thesis by simp
qed

text \<open>
  C8, amended: the 4x4 image of opaque mid-gray pixels (128, 128, 128), processed with
  contrast 0, brightness 0, threshold mode and detail 50 (invert off, every other
  setting arbitrary), has the threshold \<open>127.5 - 2^-46\<close> (127.49999999999999); every
  pixel has the luminance 128, and \<open>128 < threshold\<close> is false, as it is for the exact
  product 127.5 that \<open>thresholdIsLine\<close> compares with; so every pixel is classified as
  background, and the output is opaque white at every pixel.
\<close>

theorem midgray_threshold_example:
  assumes "contrast s = 0" and "brightness s = 0" and "mode s = Threshold"
    and "detail s = 50" and "\<not> invert s"
  shows "threshold_binary64 s = 127.5 - 1 / 2 ^ 46
     \<and> \<not> 128 < threshold_binary64 s
     \<and> thresholdIsLine s 128 = (128 < threshold_binary64 s)
     \<and> grayBufferOf s (uniformImage 4 4 [128, 128, 128, 255]) = replicate 16 128
     \<and> lineClassification s (uniformImage 4 4 [128, 128, 128, 255]) = replicate 16 False
     \<and> processed (processStencil (uniformImage 4 4 [128, 128, 128, 255]) s)
         = uniformImage 4 4 [255, 255, 255, 255]"
proof -
  have lum: "lumOf s 128 128 128 = 128"
    using assms(1,2) by (simp add: lumOf_gray)
  have thr: "threshold_binary64 s = 127.5 - 1 / 2 ^ 46"
    using assms(4) by (rule threshold_binary64_50)
  then have below: "\<not> 128 < threshold_binary64 s" by simp
  have exact: "\<not> thresholdIsLine s 128"
    using assms(4) by (simp add: thresholdIsLine_def)
  have cls: "\<not> invertStep s (thresholdIsLine s (lumOf s 128 128 128))"
    using assms(5) exact by (simp add: lum invertStep_def)
  have "grayBufferOf s (uniformImage 4 4 [128, 128, 128, 255]) = replicate 16 128"
    by (simp add: grayBufferOf_uniform lum)
  moreover have "lineClassification s (uniformImage 4 4 [128, 128, 128, 255]) = replicate 16 False"
    using assms(3) cls by (simp add: lineClassification_def lineBeforeInvert_threshold_uniform)
  moreover have "processed (processStencil (uniformImage 4 4 [128, 128, 128, 255]) s)
         = uniformImage 4 4 [255, 255, 255, 255]"
    using assms(3) cls by (simp add: processStencil_threshold_uniform white_pixels)
  ultimately show ?thesis using thr below exact by simp
qed

theorem midgray_threshold_example_witness:
  "contrast (DEFAULT_SETTINGS\<lparr>contrast := 0, mode := Threshold, detail := 50\<rparr>) = 0
   \<and> brightness (DEFAULT_SETTINGS\<lparr>contrast := 0, mode := Threshold, detail := 50\<rparr>) = 0
   \<and> mode (DEFAULT_SETTINGS\<lparr>contrast := 0, mode := Threshold, detail := 50\<rparr>) = Threshold
   \<and> detail (DEFAULT_SETTINGS\<lparr>contrast := 0, mode := Threshold, detail := 50\<rparr>) = 50
   \<and> \<not> invert (DEFAULT_SETTINGS\<lparr>contrast := 0, mode := Threshold, detail := 50\<rparr>)
   \<and> \<not> 128 < threshold_binary64 (DEFAULT_SETTINGS\<lparr>contrast := 0, mode := Threshold, detail := 50\<rparr>)
   \<and> processed (processStencil (uniformImage 4 4 [128, 128, 128, 255])
         (DEFAULT_SETTINGS\<lparr>contrast := 0, mode := Threshold, detail := 50\<rparr>))
       = uniformImage 4 4 [255, 255, 255, 255]"
  using midgray_threshold_example [of "DEFAULT_SETTINGS\<lparr>contrast := 0, mode := Threshold, detail := 50\<rparr>"]
  by (simp add: DEFAULT_SETTINGS_def)

section \<open>Settings outside their documented range\<close>









section \<open>Threshold mode and the detail setting\<close>

lemma length_filter_mono:
  "(\<And>x. x \<in> set xs \<Longrightarrow> P x \<Longrightarrow> Q x) \<Longrightarrow> length (filter P xs) \<le> length (filter Q xs)"
  by (induction xs) auto

lemma lineCount_threshold:
  assumes "mode s = Threshold"
  shows "lineCount s img
     = length (filter (\<lambda>i. invertStep s (grayBufferOf s img ! i < detail s * 2.55))
         [0..<width img * height img])"
  using assms
  by (simp add: lineCount_def lineClassification_def lineBeforeInvert_def thresholdIsLine_def
      filter_map comp_def)

text \<open>
  C6, amended: for a fixed image and fixed Settings in threshold mode with invert off,
  raising the detail never lowers the number of pixels drawn as lines.
\<close>

theorem threshold_detail_monotone:
  assumes "mode s = Threshold" and "\<not> invert s" and "d1 \<le> d2"
  shows "lineCount (s\<lparr>detail := d1\<rparr>) imageData \<le> lineCount (s\<lparr>detail := d2\<rparr>) imageData"
proof -
  have g: "grayBufferOf (s\<lparr>detail := d\<rparr>) imageData = grayBufferOf s imageData" for d
    by (rule grayBufferOf_cong) simp_all
  have "d1 * 2.55 \<le> d2 * 2.55" using assms(3) by simp
  then have "length (filter (\<lambda>i. grayBufferOf s imageData ! i < d1 * 2.55) [0..<width imageData * height imageData])
      \<le> length (filter (\<lambda>i. grayBufferOf s imageData ! i < d2 * 2.55) [0..<width imageData * height imageData])"
    by (intro length_filter_mono) simp
  then show ?thesis
    using assms(1,2) by (simp add: lineCount_threshold g invertStep_def)
qed

theorem threshold_detail_monotone_witness:
  "mode (DEFAULT_SETTINGS\<lparr>mode := Threshold\<rparr>) = Threshold
   \<and> \<not> invert (DEFAULT_SETTINGS\<lparr>mode := Threshold\<rparr>) \<and> (30 :: real) \<le> 60
   \<and> lineCount (DEFAULT_SETTINGS\<lparr>mode := Threshold, detail := 30\<rparr>) (uniformImage 1 1 [128, 128, 128, 255])
       \<le> lineCount (DEFAULT_SETTINGS\<lparr>mode := Threshold, detail := 60\<rparr>) (uniformImage 1 1 [128, 128, 128, 255])"
  using threshold_detail_monotone [of "DEFAULT_SETTINGS\<lparr>mode := Threshold\<rparr>" 30 60
      "uniformImage 1 1 [128, 128, 128, 255]"]
  by (simp add: DEFAULT_SETTINGS_def)

lemma lineCount_threshold_uniform:
  "mode s = Threshold \<Longrightarrow>
   lineCount s (uniformImage w h [r, g, b, a])
     = (if invertStep s (thresholdIsLine s (lumOf s r g b)) then w * h else 0)"
  by (simp add: lineCount_def lineClassification_def lineBeforeInvert_threshold_uniform)

text \<open>
  C6, as stated for every Settings value, fails when invert is on: the invert step turns
  the pixels below the threshold into background. One mid-gray pixel is a line pixel at
  detail 0 (threshold 0) and a background pixel at detail 100 (threshold 255).
\<close>

theorem inverted_threshold_not_monotone:
  "lineCount (DEFAULT_SETTINGS\<lparr>contrast := 0, mode := Threshold, invert := True, detail := 0\<rparr>)
       (uniformImage 1 1 [128, 128, 128, 255]) = 1
   \<and> lineCount (DEFAULT_SETTINGS\<lparr>contrast := 0, mode := Threshold, invert := True, detail := 100\<rparr>)
       (uniformImage 1 1 [128, 128, 128, 255]) = 0
   \<and> \<not> lineCount (DEFAULT_SETTINGS\<lparr>contrast := 0, mode := Threshold, invert := True, detail := 0\<rparr>)
         (uniformImage 1 1 [128, 128, 128, 255])
       \<le> lineCount (DEFAULT_SETTINGS\<lparr>contrast := 0, mode := Threshold, invert := True, detail := 100\<rparr>)
         (uniformImage 1 1 [128, 128, 128, 255])"
proof -
  let ?s0 = "DEFAULT_SETTINGS\<lparr>contrast := 0, mode := Threshold, invert := True, detail := 0\<rparr>"
  let ?s1 = "DEFAULT_SETTINGS\<lparr>contrast := 0, mode := Threshold, invert := True, detail := 100\<rparr>"
  have lum: "lumOf ?s0 128 128 128 = 128" "lumOf ?s1 128 128 128 = 128"
    by (simp_all add: lumOf_gray DEFAULT_SETTINGS_def)
  have "lineCount ?s0 (uniformImage 1 1 [128, 128, 128, 255]) = 1"
    by (simp add: lineCount_threshold_uniform lum) (simp add: DEFAULT_SETTINGS_def thresholdIsLine_def invertStep_def)
  moreover have "lineCount ?s1 (uniformImage 1 1 [128, 128, 128, 255]) = 0"
    by (simp add: lineCount_threshold_uniform lum) (simp add: DEFAULT_SETTINGS_def thresholdIsLine_def invertStep_def)
  ultimately show ?thesis by simp
qed

section \<open>The line decision of the mixed mode\<close>

text \<open>
  C2, amended: in mixed mode a pixel is a line, before the invert step, exactly when its
  dilated edge magnitude exceeds \<open>detail * 2.55\<close> or its smoothed luminance is at most
  128 (the source tests \<open>grayBuffer[i] > 128\<close> for "not a line").
\<close>

theorem mixed_line_decision:
  assumes "mode s = Mixed" and "i < width imageData * height imageData"
  shows "lineBeforeInvert s imageData ! i
     \<longleftrightarrow> (dilatedGrayOf s imageData ! i > detail s * 2.55 \<or> grayBufferOf s imageData ! i \<le> 128)"
  using assms by (auto simp add: lineBeforeInvert_def edgeIsLine_def Let_def)

theorem mixed_line_decision_witness:
  "mode (DEFAULT_SETTINGS\<lparr>contrast := 0, mode := Mixed\<rparr>) = Mixed
   \<and> (0 :: nat) < width (uniformImage 1 1 [128, 128, 128, 255]) * height (uniformImage 1 1 [128, 128, 128, 255])
   \<and> (lineBeforeInvert (DEFAULT_SETTINGS\<lparr>contrast := 0, mode := Mixed\<rparr>)
         (uniformImage 1 1 [128, 128, 128, 255]) ! 0
       \<longleftrightarrow> (dilatedGrayOf (DEFAULT_SETTINGS\<lparr>contrast := 0, mode := Mixed\<rparr>)
               (uniformImage 1 1 [128, 128, 128, 255]) ! 0
             > detail (DEFAULT_SETTINGS\<lparr>contrast := 0, mode := Mixed\<rparr>) * 2.55
           \<or> grayBufferOf (DEFAULT_SETTINGS\<lparr>contrast := 0, mode := Mixed\<rparr>)
               (uniformImage 1 1 [128, 128, 128, 255]) ! 0 \<le> 128))"
proof -
  have m: "mode (DEFAULT_SETTINGS\<lparr>contrast := 0, mode := Mixed\<rparr>) = Mixed" by simp
  have i: "(0 :: nat) < width (uniformImage 1 1 [128, 128, 128, 255]) * height (uniformImage 1 1 [128, 128, 128, 255])"
    by (simp add: uniformImage_def)
  from mixed_line_decision [OF m i] m i show ?thesis by blast
qed

lemma edgeMagnitude_single: "edgeMagnitude s (Suc 0) (Suc 0) grayBuffer = [0]"
  by (simp add: edgeMagnitude_def rows_of_def)

lemma dilate_at_single: "dilate_at (Suc 0) (Suc 0) [0] 1 0 0 = 0"
  by (simp add: dilate_at_def Let_def upto_rec1)

lemma dilatedGrayOf_single:
  "thickness s = 2 \<Longrightarrow> dilatedGrayOf s (uniformImage 1 1 [r, g, b, a]) = [0]"
  by (simp add: dilatedGrayOf_def uniformImage_def Let_def edgeMagnitude_single dilate_def
      rows_of_def dilate_at_single)

text \<open>
  C2, as stated with \<open>L < 128\<close>, fails at the luminance 128: a single mid-gray pixel
  has the magnitude 0 and the luminance 128, so neither criterion of the claim holds,
  and the source classifies it as a line.
\<close>

theorem mixed_midgray_is_line:
  "lineBeforeInvert (DEFAULT_SETTINGS\<lparr>contrast := 0, mode := Mixed\<rparr>)
       (uniformImage 1 1 [128, 128, 128, 255]) ! 0
   \<and> \<not> (dilatedGrayOf (DEFAULT_SETTINGS\<lparr>contrast := 0, mode := Mixed\<rparr>)
             (uniformImage 1 1 [128, 128, 128, 255]) ! 0
           > detail (DEFAULT_SETTINGS\<lparr>contrast := 0, mode := Mixed\<rparr>) * 2.55
         \<or> grayBufferOf (DEFAULT_SETTINGS\<lparr>contrast := 0, mode := Mixed\<rparr>)
             (uniformImage 1 1 [128, 128, 128, 255]) ! 0 < 128)"
proof -
  let ?s = "DEFAULT_SETTINGS\<lparr>contrast := 0, mode := Mixed\<rparr>"
  let ?img = "uniformImage 1 1 [128, 128, 128, 255]"
  have "lumOf ?s 128 128 128 = 128" by (simp add: lumOf_gray DEFAULT_SETTINGS_def)
  then have g: "grayBufferOf ?s ?img = [128]" by (simp add: grayBufferOf_uniform)
  have d: "dilatedGrayOf ?s ?img = [0]" by (rule dilatedGrayOf_single) (simp add: DEFAULT_SETTINGS_def)
  have wh: "width ?img * height ?img = 1" by (simp add: uniformImage_def)
  have "lineBeforeInvert ?s ?img = [True]"
    unfolding lineBeforeInvert_def g d wh
    by (simp add: edgeIsLine_def DEFAULT_SETTINGS_def)
  then show ?thesis unfolding g d by (simp add: DEFAULT_SETTINGS_def)
qed

section \<open>Flipping and inverting twice\<close>

lemma lineBeforeInvert_invert: "lineBeforeInvert (s\<lparr>invert := b\<rparr>) img = lineBeforeInvert s img"
  by (rule lineBeforeInvert_cong) simp_all

lemma lineClassification_invert:
  "lineClassification (s\<lparr>invert := b\<rparr>) img
     = map (\<lambda>isLine. if b then \<not> isLine else isLine) (lineBeforeInvert s img)"
proof -
  have "invertStep (s\<lparr>invert := b\<rparr>) = (\<lambda>isLine. if b then \<not> isLine else isLine)"
    by (rule ext) (simp add: invertStep_def)
  then show ?thesis by (simp add: lineClassification_def lineBeforeInvert_invert)
qed

text \<open>
  C9: mirroring the output that was rendered with flipX on once more (the render loop's
  reflection, into any buffer of the image's size) gives the output rendered with flipX
  off; and turning invert on negates the line decision of every pixel, so that applying
  the invert step to it a second time gives back the decision with invert off.
\<close>

theorem flip_twice_invert_twice:
  assumes "wf_image imageData" and "length buf = length (data imageData)"
  shows "render True (width imageData) (height imageData)
           (data (processed (processStencil imageData (s\<lparr>flipX := True\<rparr>)))) buf
         = data (processed (processStencil imageData (s\<lparr>flipX := False\<rparr>)))
     \<and> lineClassification (s\<lparr>invert := True\<rparr>) imageData
         = map Not (lineClassification (s\<lparr>invert := False\<rparr>) imageData)
     \<and> map (invertStep (s\<lparr>invert := True\<rparr>)) (lineClassification (s\<lparr>invert := True\<rparr>) imageData)
         = lineClassification (s\<lparr>invert := False\<rparr>) imageData"
proof -
  let ?w = "width imageData" and ?h = "height imageData"
  let ?fb = "finalBufferOf s imageData"
  have w: "0 < ?w" using assms(1) by (simp add: wf_image_def)
  have len: "length (data imageData) = 4 * (?h * ?w)" using assms(1) by (rule wf_image_length)
  have lbuf: "length buf = 4 * (?h * ?w)" using assms(2) len by simp
  have lfb: "length ?fb = 4 * (?h * ?w)" by (rule length_finalBufferOf)
  have "render True ?w ?h (data (processed (processStencil imageData (s\<lparr>flipX := True\<rparr>)))) buf
      = render True ?w ?h (render True ?w ?h ?fb (data imageData)) buf"
    by (simp add: processed_data finalBufferOf_flipX)
  also have "\<dots> = ?fb" using w len lbuf lfb by (rule render_flip_twice)
  also have "\<dots> = render False ?w ?h ?fb (data imageData)"
    using w len lfb by (rule render_noflip [symmetric])
  also have "\<dots> = data (processed (processStencil imageData (s\<lparr>flipX := False\<rparr>)))"
    by (simp add: processed_data finalBufferOf_flipX)
  finally have flip: "render True ?w ?h (data (processed (processStencil imageData (s\<lparr>flipX := True\<rparr>)))) buf
      = data (processed (processStencil imageData (s\<lparr>flipX := False\<rparr>)))" .
  have inv: "invertStep (s\<lparr>invert := True\<rparr>) = Not"
    by (rule ext) (simp add: invertStep_def)
  have once: "lineClassification (s\<lparr>invert := True\<rparr>) imageData
         = map Not (lineClassification (s\<lparr>invert := False\<rparr>) imageData)"
    by (simp add: lineClassification_invert)
  have twice: "map (invertStep (s\<lparr>invert := True\<rparr>)) (lineClassification (s\<lparr>invert := True\<rparr>) imageData)
         = lineClassification (s\<lparr>invert := False\<rparr>) imageData"
    unfolding inv by (simp add: lineClassification_invert comp_def)
  from flip once twice show ?thesis by simp
qed

theorem flip_twice_invert_twice_witness:
  "wf_image twoPixelImage
   \<and> length (replicate 8 (0 :: byte)) = length (data twoPixelImage)
   \<and> render True 2 1
         (data (processed (processStencil twoPixelImage
            (DEFAULT_SETTINGS\<lparr>flipX := True\<rparr>)))) (replicate 8 0)
       = data (processed (processStencil twoPixelImage
            (DEFAULT_SETTINGS\<lparr>flipX := False\<rparr>)))
   \<and> map (invertStep (DEFAULT_SETTINGS\<lparr>invert := True\<rparr>))
         (lineClassification (DEFAULT_SETTINGS\<lparr>invert := True\<rparr>) twoPixelImage)
       = lineClassification (DEFAULT_SETTINGS\<lparr>invert := False\<rparr>) twoPixelImage"
proof -
  have wf: "wf_image twoPixelImage"
    by (simp add: wf_image_def twoPixelImage_def)
  have len: "length (replicate 8 (0 :: byte)) = length (data twoPixelImage)"
    by (simp add: twoPixelImage_def)
  have wh: "width twoPixelImage = 2" "height twoPixelImage = 1"
    by (simp_all add: twoPixelImage_def)
  from flip_twice_invert_twice [OF wf len, of DEFAULT_SETTINGS] wf len show ?thesis
    unfolding wh by blast
qed

section \<open>segmentImage: degenerate grids\<close>

lemma product_Nil_right: "List.product xs [] = []"
  by (induction xs) simp_all

text \<open>
  C5, amended: \<open>segmentImage\<close> validates nothing and raises no error of its own. With
  \<open>rows = 0\<close> or \<open>cols = 0\<close> the loops do not run and it returns an empty list of
  parts, whatever the source canvas is.
\<close>

theorem zero_grid_returns_no_parts:
  "rows = 0 \<or> cols = 0 \<Longrightarrow> segmentImage sourceCanvas rows cols = Inr []"
  by (auto simp add: segmentImage_def product_Nil_right)

theorem zero_grid_returns_no_parts_witness:
  "((0 :: nat) = 0 \<or> (2 :: nat) = 0)
   \<and> segmentImage \<lparr>canvas_width = 100, canvas_height = 100, context2d = True\<rparr> 0 2 = Inr []"
  using zero_grid_returns_no_parts
    [of 0 2 "\<lparr>canvas_width = 100, canvas_height = 100, context2d = True\<rparr>"]
  by simp

text \<open>
  C5, as stated, fails: a request with \<open>rows = 0\<close> is not rejected with an error; it
  returns normally, with no parts.
\<close>

theorem zero_rows_not_rejected:
  "segmentImage \<lparr>canvas_width = 100, canvas_height = 100, context2d = True\<rparr> 0 2 = Inr []"
  by (simp add: segmentImage_def)

section \<open>segmentImage: the parts cover the board\<close>

lemma collectParts_nonzero:
  assumes "canvas_width cv \<noteq> 0" and "canvas_height cv \<noteq> 0"
  shows "collectParts cv rows cols cells parts
     = Inr (parts @ map (\<lambda>(r, c). partRect (canvas_width cv) (canvas_height cv) rows cols r c) cells)"
  using assms by (induction cells arbitrary: parts) (auto simp add: drawPart_def)

lemma segmentSize_covers:
  assumes "1 \<le> n"
  shows "int e \<le> int n * segmentSize e n"
proof -
  have "real e / real n \<le> real_of_int (segmentSize e n)"
    by (simp add: segmentSize_def)
  then have "real e \<le> real_of_int (segmentSize e n) * real n"
    using assms by (simp add: field_simps)
  then have "real_of_int (int e) \<le> real_of_int (int n * segmentSize e n)"
    by (simp add: mult.commute)
  then show ?thesis by (simp only: of_int_le_iff)
qed

lemma segmentSize_pos:
  assumes "1 \<le> n" and "1 \<le> e"
  shows "0 < segmentSize e n"
proof -
  have "0 < real e / real n" using assms by simp
  then show ?thesis by (simp add: segmentSize_def)
qed

lemma segmentImage_parts:
  assumes "context2d cv" and "canvas_width cv \<noteq> 0" and "canvas_height cv \<noteq> 0"
  shows "segmentImage cv rows cols
     = Inr (map (\<lambda>(r, c). partRect (canvas_width cv) (canvas_height cv) rows cols r c)
         (List.product [0..<rows] [0..<cols]))"
  using assms by (simp add: segmentImage_def collectParts_nonzero)

lemma part_columns:
  "part_x (partRect W H rows cols r c)
     = max 0 (int c * segmentSize W cols - (if c > 0 then overlap else 0))"
  "part_w (partRect W H rows cols r c)
     = min (int W - part_x (partRect W H rows cols r c))
         (segmentSize W cols + (if c > 0 then overlap else 0)
            + (if int c < int cols - 1 then overlap else 0))"
  by (simp_all add: partRect_def Let_def)

lemma part_rows:
  "part_y (partRect W H rows cols r c)
     = max 0 (int r * segmentSize H rows - (if r > 0 then overlap else 0))"
  "part_h (partRect W H rows cols r c)
     = min (int H - part_y (partRect W H rows cols r c))
         (segmentSize H rows + (if r > 0 then overlap else 0)
            + (if int r < int rows - 1 then overlap else 0))"
  by (simp_all add: partRect_def Let_def)

text \<open>One axis: a span that starts at \<open>x\<close> and has the length \<open>w\<close>, as the source computes them.\<close>

lemma span_inside:
  assumes "x = max 0 (k - lead)" and "w = min (e - x) (sz + lead + trail)"
    and "x \<le> p" and "p < x + w"
  shows "0 \<le> p \<and> p < (e :: int)"
  using assms by linarith

lemma cell_inside_span:
  assumes "x = max 0 (k - lead)" and "w = min (e - x) (sz + lead + trail)"
    and "0 \<le> lead" and "0 \<le> trail" and "0 \<le> p" and "p < (e :: int)"
    and "k \<le> p" and "p < k + sz"
  shows "x \<le> p \<and> p < x + w"
  using assms by linarith

lemma cell_exists:
  assumes "1 \<le> n" and "1 \<le> e" and "0 \<le> p" and "p < int e"
  shows "\<exists>c<n. int c * segmentSize e n \<le> p \<and> p < (int c + 1) * segmentSize e n"
proof -
  let ?sz = "segmentSize e n"
  have sz: "0 < ?sz" using assms(1,2) by (rule segmentSize_pos)
  let ?q = "p div ?sz"
  have q0: "0 \<le> ?q" using assms(3) sz by (simp add: pos_imp_zdiv_nonneg_iff)
  have split: "?q * ?sz + p mod ?sz = p" by (rule div_mult_mod_eq)
  have m: "0 \<le> p mod ?sz" "p mod ?sz < ?sz" using sz by simp_all
  have lo: "?q * ?sz \<le> p" using split m(1) by linarith
  have "(?q + 1) * ?sz = ?q * ?sz + ?sz" by (simp add: distrib_right)
  then have hi: "p < (?q + 1) * ?sz" using split m(2) by linarith
  have "?q < int n"
  proof (rule ccontr)
    assume "\<not> ?q < int n"
    then have "int n * ?sz \<le> ?q * ?sz" using sz by (simp add: mult_right_mono)
    with lo segmentSize_covers [OF assms(1), of e] assms(4) show False by linarith
  qed
  then have "nat ?q < n" using q0 by simp
  moreover have "int (nat ?q) = ?q" using q0 by simp
  ultimately show ?thesis using lo hi by metis
qed

lemma sourceRect_inside:
  "sourceRect (partRect W H rows cols r c) \<subseteq> {0..<int W} \<times> {0..<int H}"
proof
  fix q assume q: "q \<in> sourceRect (partRect W H rows cols r c)"
  obtain u v where [simp]: "q = (u, v)" by (cases q)
  let ?P = "partRect W H rows cols r c"
  from q have x: "part_x ?P \<le> u" "u < part_x ?P + part_w ?P"
    and y: "part_y ?P \<le> v" "v < part_y ?P + part_h ?P"
    by (simp_all add: sourceRect_def)
  have "0 \<le> u \<and> u < int W"
    using part_columns [of W H rows cols r c] x by (rule span_inside)
  moreover have "0 \<le> v \<and> v < int H"
    using part_rows [of W H rows cols r c] y by (rule span_inside)
  ultimately show "q \<in> {0..<int W} \<times> {0..<int H}" by simp
qed

lemma own_cell_inside_part:
  assumes "0 \<le> u" "u < int W" "0 \<le> v" "v < int H"
    and "(u, v) \<in> ownCell W H rows cols r c"
  shows "(u, v) \<in> sourceRect (partRect W H rows cols r c)"
proof -
  let ?P = "partRect W H rows cols r c"
  have lead: "0 \<le> (if c > 0 then overlap else 0)" "0 \<le> (if r > 0 then overlap else 0)"
    and trail: "0 \<le> (if int c < int cols - 1 then overlap else 0)"
      "0 \<le> (if int r < int rows - 1 then overlap else 0)"
    by (simp_all add: overlap_def)
  from assms(5) have cx: "int c * segmentSize W cols \<le> u" "u < int c * segmentSize W cols + segmentSize W cols"
    and cy: "int r * segmentSize H rows \<le> v" "v < int r * segmentSize H rows + segmentSize H rows"
    by (simp_all add: ownCell_def distrib_right)
  have "part_x ?P \<le> u \<and> u < part_x ?P + part_w ?P"
    using part_columns [of W H rows cols r c] lead(1) trail(1) assms(1,2) cx
    by (rule cell_inside_span)
  moreover have "part_y ?P \<le> v \<and> v < part_y ?P + part_h ?P"
    using part_rows [of W H rows cols r c] lead(2) trail(2) assms(3,4) cy
    by (rule cell_inside_span)
  ultimately show ?thesis by (simp add: sourceRect_def)
qed

text \<open>
  C7: for at least one row and one column and a board of at least one pixel each way,
  \<open>segmentImage\<close> returns the parts of all grid cells, with the source rectangles
  that \<open>partRect\<close> computes from \<open>cellW = ceil (W / cols)\<close> and
  \<open>cellH = ceil (H / rows)\<close>. The leading overlap band of a part is what its
  rectangle holds before the start of its own cell, the trailing band what it holds
  from the start of the next cell on. The rectangles without these bands have exactly
  the board \<open>[0, W) x [0, H)\<close> as their union, and so have the full rectangles: no
  pixel of the board is left out and no rectangle leaves the board.
\<close>

theorem tiles_cover_board:
  assumes "1 \<le> rows" and "1 \<le> cols" and "1 \<le> W" and "1 \<le> H"
  shows "segmentImage \<lparr>canvas_width = W, canvas_height = H, context2d = True\<rparr> rows cols
           = Inr (map (\<lambda>(r, c). partRect W H rows cols r c) (List.product [0..<rows] [0..<cols]))
       \<and> (\<Union>r\<in>{0..<rows}. \<Union>c\<in>{0..<cols}. withoutOverlap W H rows cols r c)
           = {0..<int W} \<times> {0..<int H}
       \<and> (\<Union>r\<in>{0..<rows}. \<Union>c\<in>{0..<cols}. sourceRect (partRect W H rows cols r c))
           = {0..<int W} \<times> {0..<int H}"
proof -
  have parts: "segmentImage \<lparr>canvas_width = W, canvas_height = H, context2d = True\<rparr> rows cols
      = Inr (map (\<lambda>(r, c). partRect W H rows cols r c) (List.product [0..<rows] [0..<cols]))"
    using assms(3,4) by (simp add: segmentImage_parts)
  let ?board = "{0..<int W} \<times> {0..<int H}"
  let ?cores = "\<Union>r\<in>{0..<rows}. \<Union>c\<in>{0..<cols}. withoutOverlap W H rows cols r c"
  let ?rects = "\<Union>r\<in>{0..<rows}. \<Union>c\<in>{0..<cols}. sourceRect (partRect W H rows cols r c)"
  have "?cores \<subseteq> ?rects"
    by (intro UN_mono subset_refl) (simp add: withoutOverlap_def)
  moreover have "?rects \<subseteq> ?board"
    by (intro UN_least sourceRect_inside)
  moreover have "?board \<subseteq> ?cores"
  proof
    fix q assume q: "q \<in> ?board"
    obtain u v where [simp]: "q = (u, v)" by (cases q)
    from q have b: "0 \<le> u" "u < int W" "0 \<le> v" "v < int H" by simp_all
    from cell_exists [OF assms(2,3) b(1,2)] obtain c where c: "c < cols"
      "int c * segmentSize W cols \<le> u" "u < (int c + 1) * segmentSize W cols" by blast
    from cell_exists [OF assms(1,4) b(3,4)] obtain r where r: "r < rows"
      "int r * segmentSize H rows \<le> v" "v < (int r + 1) * segmentSize H rows" by blast
    have cell: "(u, v) \<in> ownCell W H rows cols r c"
      using c(2,3) r(2,3) by (simp add: ownCell_def)
    with b have "(u, v) \<in> sourceRect (partRect W H rows cols r c)"
      by (rule own_cell_inside_part)
    with cell have "(u, v) \<in> withoutOverlap W H rows cols r c"
      by (simp add: withoutOverlap_def)
    moreover have "r \<in> {0..<rows}" "c \<in> {0..<cols}" using c(1) r(1) by simp_all
    ultimately have "(u, v) \<in> ?cores" by (intro UN_I)
    then show "q \<in> ?cores" by simp
  qed
  ultimately have "?cores = ?board" and "?rects = ?board" by (auto intro: order_antisym order_trans)
  with parts show ?thesis by (intro conjI)
qed

theorem tiles_cover_board_witness:
  "(1 :: nat) \<le> 2 \<and> (1 :: nat) \<le> 100
   \<and> segmentImage \<lparr>canvas_width = 100, canvas_height = 100, context2d = True\<rparr> 2 2
       = Inr (map (\<lambda>(r, c). partRect 100 100 2 2 r c) (List.product [0..<2] [0..<2]))
   \<and> (\<Union>r\<in>{0..<2}. \<Union>c\<in>{0..<2}. withoutOverlap 100 100 2 2 r c) = {0..<100} \<times> {0..<100}
   \<and> (\<Union>r\<in>{0..<2}. \<Union>c\<in>{0..<2}. sourceRect (partRect 100 100 2 2 r c)) = {0..<100} \<times> {0..<100}"
proof -
  have h: "(1 :: nat) \<le> 2" "(1 :: nat) \<le> 100" by simp_all
  have "int 100 = 100" by simp
  with tiles_cover_board [OF h(1) h(1) h(2) h(2)] h show ?thesis by (simp only:) 
qed

section \<open>Segment export: blank tiles\<close>

lemma scanContent_iff:
  "scanContent d i \<longleftrightarrow> (\<exists>k. i + 100 * k < length d \<and> sampleNonWhite d (i + 100 * k))"
proof (induction d i rule: scanContent.induct)
  case (1 d i)
  show ?case
  proof (cases "i < length d")
    case False
    then show ?thesis by (subst scanContent.simps) auto
  next
    case inside: True
    show ?thesis
    proof (cases "sampleNonWhite d i")
      case True
      then have "scanContent d i"
        using inside by (subst scanContent.simps) (simp add: sampleNonWhite_def)
      moreover have "i + 100 * 0 < length d \<and> sampleNonWhite d (i + 100 * 0)"
        using inside True by simp
      ultimately show ?thesis by blast
    next
      case False
      then have step: "scanContent d i = scanContent d (i + 100)"
        using inside by (subst scanContent.simps) (simp add: sampleNonWhite_def)
      have IH: "scanContent d (i + 100)
          \<longleftrightarrow> (\<exists>k. i + 100 + 100 * k < length d \<and> sampleNonWhite d (i + 100 + 100 * k))"
        using inside False by (intro "1.IH") (simp_all add: sampleNonWhite_def)
      have "(\<exists>k. i + 100 * k < length d \<and> sampleNonWhite d (i + 100 * k))
          \<longleftrightarrow> (\<exists>k. i + 100 + 100 * k < length d \<and> sampleNonWhite d (i + 100 + 100 * k))"
      proof
        assume "\<exists>k. i + 100 * k < length d \<and> sampleNonWhite d (i + 100 * k)"
        then obtain k where k: "i + 100 * k < length d" "sampleNonWhite d (i + 100 * k)" by blast
        with False obtain j where "k = Suc j" by (cases k) simp_all
        with k have "i + 100 + 100 * j < length d \<and> sampleNonWhite d (i + 100 + 100 * j)"
          by (simp add: add.assoc)
        then show "\<exists>k. i + 100 + 100 * k < length d \<and> sampleNonWhite d (i + 100 + 100 * k)" ..
      next
        assume "\<exists>k. i + 100 + 100 * k < length d \<and> sampleNonWhite d (i + 100 + 100 * k)"
        then obtain j where "i + 100 + 100 * j < length d" "sampleNonWhite d (i + 100 + 100 * j)" by blast
        then have "i + 100 * Suc j < length d \<and> sampleNonWhite d (i + 100 * Suc j)"
          by (simp add: add.assoc)
        then show "\<exists>k. i + 100 * k < length d \<and> sampleNonWhite d (i + 100 * k)" ..
      qed
      with step IH show ?thesis by simp
    qed
  qed
qed

lemma sample_white:
  assumes "\<And>b. b \<in> set d \<Longrightarrow> 250 \<le> b"
  shows "\<not> sampleNonWhite d i"
proof -
  have "\<not> lt_js (rd d j) 250" for j
    using assms [of "d ! j"] by (auto simp add: lt_js_def rd_def)
  then show ?thesis by (simp add: sampleNonWhite_def)
qed

lemma scan_white: "(\<And>b. b \<in> set d \<Longrightarrow> 250 \<le> b) \<Longrightarrow> \<not> scanContent d i"
  by (simp add: scanContent_iff sample_white)

lemma crop_eq:
  "crop pixels x y w h suffix segments
     = segments @ map (segmentOf pixels)
         (filter (\<lambda>q. scanContent (tileOf pixels q) 0) [(x, y, w, h, suffix)])"
  by (simp add: crop_def Let_def segmentOf_def tileOf_def)

lemma fold_crop:
  "fold (\<lambda>i. crop pixels (fx i) (fy i) (fw i) (fh i) (fs i)) ns segments
     = segments @ map (segmentOf pixels)
         (filter (\<lambda>q. scanContent (tileOf pixels q) 0)
            (map (\<lambda>i. (fx i, fy i, fw i, fh i, fs i)) ns))"
proof (induction ns arbitrary: segments)
  case Nil
  then show ?case by simp
next
  case (Cons n ns)
  show ?case by (simp add: Cons.IH crop_eq [of pixels "fx n"])
qed

lemma crop_snoc:
  "crop pixels x y w h suffix
     (map (segmentOf pixels) (filter (\<lambda>q. scanContent (tileOf pixels q) 0) qs))
   = map (segmentOf pixels)
       (filter (\<lambda>q. scanContent (tileOf pixels q) 0) (qs @ [(x, y, w, h, suffix)]))"
  by (simp only: crop_eq map_append filter_append)

lemma exportSegments_filter:
  "exportSegments pixels boardMode splitMode parts
     = map (segmentOf pixels)
         (filter (\<lambda>q. scanContent (tileOf pixels q) 0) (cropRequests boardMode splitMode parts))"
proof (cases "if boardMode = Poster_2x2 then Quadrant else splitMode")
  case Vertical
  define w where "w = BOARD_WIDTH boardMode / real parts"
  have "exportSegments pixels boardMode splitMode parts
      = fold (\<lambda>i. crop pixels (real i * w) 0 w (BOARD_HEIGHT boardMode) (decimal (i + 1))) [0..<parts] []"
    unfolding exportSegments_def Vertical w_def by (simp only: Let_def SplitMode.case)
  also have "\<dots> = [] @ map (segmentOf pixels) (filter (\<lambda>q. scanContent (tileOf pixels q) 0)
      (map (\<lambda>i. (real i * w, 0, w, BOARD_HEIGHT boardMode, decimal (i + 1))) [0..<parts]))"
    by (rule fold_crop)
  also have "map (\<lambda>i. (real i * w, 0, w, BOARD_HEIGHT boardMode, decimal (i + 1))) [0..<parts]
      = cropRequests boardMode splitMode parts"
    unfolding cropRequests_def Vertical w_def by (simp only: Let_def SplitMode.case)
  finally show ?thesis by (simp only: append_Nil)
next
  case Horizontal
  define h where "h = BOARD_HEIGHT boardMode / real parts"
  have "exportSegments pixels boardMode splitMode parts
      = fold (\<lambda>i. crop pixels 0 (real i * h) (BOARD_WIDTH boardMode) h (decimal (i + 1))) [0..<parts] []"
    unfolding exportSegments_def Horizontal h_def by (simp only: Let_def SplitMode.case)
  also have "\<dots> = [] @ map (segmentOf pixels) (filter (\<lambda>q. scanContent (tileOf pixels q) 0)
      (map (\<lambda>i. (0, real i * h, BOARD_WIDTH boardMode, h, decimal (i + 1))) [0..<parts]))"
    by (rule fold_crop)
  also have "map (\<lambda>i. (0, real i * h, BOARD_WIDTH boardMode, h, decimal (i + 1))) [0..<parts]
      = cropRequests boardMode splitMode parts"
    unfolding cropRequests_def Horizontal h_def by (simp only: Let_def SplitMode.case)
  finally show ?thesis by (simp only: append_Nil)
next
  case Quadrant
  define w where "w = BOARD_WIDTH boardMode / 2"
  define h where "h = BOARD_HEIGHT boardMode / 2"
  have "exportSegments pixels boardMode splitMode parts
      = crop pixels w h w h ''4_BottomRight''
          (crop pixels 0 h w h ''3_BottomLeft''
            (crop pixels w 0 w h ''2_TopRight''
              (crop pixels 0 0 w h ''1_TopLeft'' [])))"
    unfolding exportSegments_def Quadrant w_def h_def by (simp only: Let_def SplitMode.case)
  also have "\<dots> = crop pixels w h w h ''4_BottomRight''
          (crop pixels 0 h w h ''3_BottomLeft''
            (crop pixels w 0 w h ''2_TopRight''
              (crop pixels 0 0 w h ''1_TopLeft''
                (map (segmentOf pixels) (filter (\<lambda>q. scanContent (tileOf pixels q) 0) [])))))"
    by (simp only: filter.simps list.map)
  also have "\<dots> = map (segmentOf pixels) (filter (\<lambda>q. scanContent (tileOf pixels q) 0)
      [(0, 0, w, h, ''1_TopLeft''), (w, 0, w, h, ''2_TopRight''),
       (0, h, w, h, ''3_BottomLeft''), (w, h, w, h, ''4_BottomRight'')])"
    by (simp only: crop_snoc append_Nil append_Cons)
  also have "[(0, 0, w, h, ''1_TopLeft''), (w, 0, w, h, ''2_TopRight''),
       (0, h, w, h, ''3_BottomLeft''), (w, h, w, h, ''4_BottomRight'')]
      = cropRequests boardMode splitMode parts"
    unfolding cropRequests_def Quadrant w_def h_def by (simp only: Let_def SplitMode.case)
  finally show ?thesis .
qed

lemma segment_data_segmentOf: "segment_data (segmentOf pixels q) = tileOf pixels q"
  by (cases q) (simp add: segmentOf_def tileOf_def)

text \<open>
  C4: the export set consists of the crops whose content scan succeeds, in the order of
  the crop calls, so every tile whose scan finds no sampled byte below 250 is dropped;
  the scan looks at the bytes \<open>100 k\<close>, \<open>100 k + 1\<close>, \<open>100 k + 2\<close> of the tile. When
  every tile is dropped, the export ends in the alert and no download; and whenever it
  ends in downloads, there is at least one and each has passed the scan.
\<close>

theorem blank_tiles_dropped:
  "exportSegments pixels boardMode splitMode parts
     = map (segmentOf pixels)
         (filter (\<lambda>q. scanContent (tileOf pixels q) 0) (cropRequests boardMode splitMode parts))
   \<and> (scanContent d 0 \<longleftrightarrow> (\<exists>k. 100 * k < length d \<and> sampleNonWhite d (100 * k)))
   \<and> ((\<forall>q \<in> set (cropRequests boardMode splitMode parts). \<not> scanContent (tileOf pixels q) 0)
        \<longrightarrow> performExport pixels boardMode splitMode parts
            = Alert ''No active segments found. Place the image within the board area.'')
   \<and> (\<forall>segments. performExport pixels boardMode splitMode parts = Downloads segments
        \<longrightarrow> segments \<noteq> [] \<and> (\<forall>seg \<in> set segments. scanContent (segment_data seg) 0))"
proof (intro conjI)
  show "exportSegments pixels boardMode splitMode parts
     = map (segmentOf pixels)
         (filter (\<lambda>q. scanContent (tileOf pixels q) 0) (cropRequests boardMode splitMode parts))"
    by (rule exportSegments_filter)
  show "scanContent d 0 \<longleftrightarrow> (\<exists>k. 100 * k < length d \<and> sampleNonWhite d (100 * k))"
    using scanContent_iff [of d 0] by simp
  show "(\<forall>q \<in> set (cropRequests boardMode splitMode parts). \<not> scanContent (tileOf pixels q) 0)
        \<longrightarrow> performExport pixels boardMode splitMode parts
            = Alert ''No active segments found. Place the image within the board area.''"
    by (simp add: performExport_def exportSegments_filter filter_empty_conv)
  show "\<forall>segments. performExport pixels boardMode splitMode parts = Downloads segments
        \<longrightarrow> segments \<noteq> [] \<and> (\<forall>seg \<in> set segments. scanContent (segment_data seg) 0)"
    by (auto simp add: performExport_def exportSegments_filter segment_data_segmentOf
        split: if_splits)
qed

theorem blank_tiles_dropped_witness:
  "\<not> scanContent (whiteTiles 0 0 10 10) 0
   \<and> exportSegments whiteTiles Tabloid Quadrant 2 = []
   \<and> performExport whiteTiles Tabloid Quadrant 2
       = Alert ''No active segments found. Place the image within the board area.''"
proof -
  have blank: "\<forall>q \<in> set (cropRequests Tabloid Quadrant 2). \<not> scanContent (tileOf whiteTiles q) 0"
    by (auto simp add: tileOf_def whiteTiles_def intro!: scan_white)
  have "\<not> scanContent (whiteTiles 0 0 10 10) 0"
    by (auto simp add: whiteTiles_def intro!: scan_white)
  with blank_tiles_dropped [of whiteTiles Tabloid Quadrant 2 "[]"] blank
  show ?thesis by (simp add: filter_empty_conv)
qed

end
